theory Spec2Isabelle
  imports Main "HOL-Library.AList" "HOL-Library.Multiset"
begin

section \<open>The crossword solver of \<open>cs50ai-p3-crossword/generate.py\<close>\<close>

text \<open>
  The class \<open>CrosswordCreator\<close> holds a crossword (slots, word list, overlap map) and a
  domain store \<open>self.domains\<close>, a dict from slot to a set of words. Its methods are
  embedded as functions that take the crossword and the domain store and, where the
  method assigns to \<open>self.domains\<close>, return the new store.

  Representation.
  \<^item> A Python \<open>dict\<close> is an association list in insertion order (the order in which
    \<open>dict\<close> iterates); a lookup is \<open>map_of\<close>, an item assignment is \<open>AList.update\<close>.
  \<^item> A Python \<open>set\<close> is the list of its elements, without repetition, in the order in
    which the set iterates. Python does not specify that order, so the theorems below
    speak about \<open>set\<close> of these lists, or hold for every order.
  \<^item> A word is a \<open>string\<close>; \<open>w[k]\<close> with \<open>k\<close> beyond the word raises \<open>IndexError\<close>.
  \<^item> A Python exception is a value \<open>Inl e\<close> of the result type \<open>py_error + 'a\<close>.
\<close>

subsection \<open>The puzzle model\<close>

datatype direction = ACROSS | DOWN

text \<open>
  Modelled from the spec: the class \<open>Variable\<close> of \<open>crossword.py\<close> (imported by
  \<open>generate.py\<close>, not part of the sources). A slot has a start row, a start column, a
  direction and a length; two slots are equal iff all four agree.
\<close>

datatype variable = Variable (var_i: nat) (var_j: nat) (var_direction: direction) (var_length: nat)

text \<open>
  Modelled from the spec: the class \<open>Crossword\<close> of \<open>crossword.py\<close>. The solver reads its
  set of slots, its word list and its overlap map: \<open>overlaps cw (x, y)\<close> is the pair of
  character indices at which \<open>x\<close> and \<open>y\<close> cross, or \<open>None\<close>.
\<close>

record crossword =
  variables :: "variable list"
  words :: "string list"
  overlaps :: "variable \<times> variable \<Rightarrow> (nat \<times> nat) option"

text \<open>
  Modelled from the spec: \<open>Crossword.neighbors\<close>, the set of slots \<open>y\<close> for which the
  overlap with \<open>x\<close> is defined.
\<close>

definition neighbors :: "crossword \<Rightarrow> variable \<Rightarrow> variable list" where
  "neighbors cw x = filter (\<lambda>y. overlaps cw (x, y) \<noteq> None) (variables cw)"

subsection \<open>Python values\<close>

datatype py_error = TypeError | IndexError | KeyError

type_synonym domains = "(variable \<times> string list) list"

type_synonym assignment = "(variable \<times> string) list"

text \<open>\<open>w[k]\<close> for a non-negative index.\<close>

definition char_at :: "string \<Rightarrow> nat \<Rightarrow> py_error + char" where
  "char_at w k = (if k < length w then Inr (w ! k) else Inl IndexError)"

text \<open>\<open>self.domains[x]\<close>.\<close>

definition domain_of :: "domains \<Rightarrow> variable \<Rightarrow> py_error + string list" where
  "domain_of doms x = (case map_of doms x of None \<Rightarrow> Inl KeyError | Some ws \<Rightarrow> Inr ws)"

text \<open>\<open>s.add(x)\<close> on a set.\<close>

definition set_add :: "'a \<Rightarrow> 'a list \<Rightarrow> 'a list" where
  "set_add x xs = (if x \<in> set xs then xs else xs @ [x])"

subsection \<open>Construction and node consistency\<close>

text \<open>\<open>__init__\<close>: every slot starts with a copy of the whole word list.\<close>

definition init_domains :: "crossword \<Rightarrow> domains" where
  "init_domains cw = map (\<lambda>var. (var, words cw)) (variables cw)"

definition enforce_node_consistency :: "domains \<Rightarrow> domains" where
  "enforce_node_consistency doms =
     map (\<lambda>(var, domain). (var, filter (\<lambda>d. length d = var_length var) domain)) doms"

subsection \<open>\<open>revise\<close>\<close>

text \<open>
  The inner loop of \<open>revise\<close>, over the words \<open>dy\<close> of \<open>self.domains[y]\<close>, for one word
  \<open>dx\<close> whose character \<open>dx_c\<close> at the overlap has been read.
\<close>

fun revise_inner :: "string \<Rightarrow> char \<Rightarrow> nat \<Rightarrow> string list \<Rightarrow> string list \<Rightarrow> py_error + string list" where
  "revise_inner dx dx_c o_v2 [] keep = Inr keep"
| "revise_inner dx dx_c o_v2 (dy # dys) keep =
     (case char_at dy o_v2 of
        Inl e \<Rightarrow> Inl e
      | Inr dy_c \<Rightarrow>
          revise_inner dx dx_c o_v2 dys
            (if dx_c = dy_c \<and> dx \<noteq> dy then set_add dx keep else keep))"

text \<open>The outer loop, over the words \<open>dx\<close> of \<open>self.domains[x]\<close>.\<close>

fun revise_outer :: "domains \<Rightarrow> variable \<Rightarrow> nat \<Rightarrow> nat \<Rightarrow> string list \<Rightarrow> string list \<Rightarrow> py_error + string list" where
  "revise_outer doms y o_v1 o_v2 [] keep = Inr keep"
| "revise_outer doms y o_v1 o_v2 (dx # dxs) keep =
     (case char_at dx o_v1 of
        Inl e \<Rightarrow> Inl e
      | Inr dx_c \<Rightarrow>
          (case domain_of doms y of
             Inl e \<Rightarrow> Inl e
           | Inr ydom \<Rightarrow>
               (case revise_inner dx dx_c o_v2 ydom keep of
                  Inl e \<Rightarrow> Inl e
                | Inr keep' \<Rightarrow> revise_outer doms y o_v1 o_v2 dxs keep')))"

text \<open>
  \<open>revise(x, y)\<close>. The subscripts \<open>overlap[0]\<close> and \<open>overlap[1]\<close> come before the test
  \<open>overlap is not None\<close>, so an undefined overlap raises \<open>TypeError\<close> and the test is
  always true where it is reached. The result is the flag \<open>revised\<close> and the store.
\<close>

definition revise :: "crossword \<Rightarrow> domains \<Rightarrow> variable \<Rightarrow> variable \<Rightarrow> py_error + (bool \<times> domains)" where
  "revise cw doms x y =
     (case overlaps cw (x, y) of
        None \<Rightarrow> Inl TypeError
      | Some (o_v1, o_v2) \<Rightarrow>
          (case domain_of doms x of
             Inl e \<Rightarrow> Inl e
           | Inr xdom \<Rightarrow>
               (case revise_outer doms y o_v1 o_v2 xdom [] of
                  Inl e \<Rightarrow> Inl e
                | Inr keep \<Rightarrow>
                    if keep \<noteq> [] then
                      Inr (set keep \<noteq> set xdom, AList.update x keep doms)
                    else Inr (False, doms))))"

subsection \<open>\<open>ac3\<close>\<close>

text \<open>The total number of words in the store: it decreases with every revision.\<close>

definition store_size :: "domains \<Rightarrow> nat" where
  "store_size doms = sum_list (map (\<lambda>p. length (snd p)) doms)"

lemma set_add_set [simp]: "set (set_add x xs) = insert x (set xs)"
  by (auto simp: set_add_def)

lemma set_add_distinct [simp]: "distinct (set_add x xs) = distinct xs"
  by (auto simp: set_add_def)

lemma revise_inner_keep:
  "revise_inner dx dx_c o_v2 dys keep = Inr keep' \<Longrightarrow>
     distinct keep \<Longrightarrow> distinct keep' \<and> set keep \<subseteq> set keep' \<and> set keep' \<subseteq> insert dx (set keep)"
proof (induction dys arbitrary: keep)
  case Nil
  then show ?case by auto
next
  case (Cons dy dys)
  then show ?case
    by (fastforce simp: char_at_def split: if_splits)
qed

lemma revise_outer_keep:
  "revise_outer doms y o_v1 o_v2 dxs keep = Inr keep' \<Longrightarrow>
     distinct keep \<Longrightarrow> distinct keep' \<and> set keep' \<subseteq> set dxs \<union> set keep"
proof (induction dxs arbitrary: keep)
  case Nil
  then show ?case by simp
next
  case (Cons dx dxs)
  from Cons.prems obtain dx_c ydom k1 where
    c: "char_at dx o_v1 = Inr dx_c" and d: "domain_of doms y = Inr ydom"
    and i: "revise_inner dx dx_c o_v2 ydom keep = Inr k1"
    and r: "revise_outer doms y o_v1 o_v2 dxs k1 = Inr keep'"
    by (auto split: sum.splits)
  from revise_inner_keep [OF i Cons.prems(2)]
  have k1: "distinct k1" "set k1 \<subseteq> insert dx (set keep)" by auto
  from Cons.IH [OF r k1(1)] k1(2) show ?case by auto
qed

lemma store_size_update:
  "map_of doms x = Some ws \<Longrightarrow>
     store_size (AList.update x ws' doms) + length ws = store_size doms + length ws'"
  by (induction doms) (auto simp: store_size_def)

lemma revise_store_size:
  assumes "revise cw doms x y = Inr (revised, doms')"
  shows "store_size doms' \<le> store_size doms"
    and "revised \<Longrightarrow> store_size doms' < store_size doms"
proof -
  from assms obtain o_v1 o_v2 xdom keep where
    ov: "overlaps cw (x, y) = Some (o_v1, o_v2)" and xd: "map_of doms x = Some xdom"
    and ro: "revise_outer doms y o_v1 o_v2 xdom [] = Inr keep"
    and res: "(revised, doms') = (if keep \<noteq> [] then (set keep \<noteq> set xdom, AList.update x keep doms) else (False, doms))"
    by (auto simp: revise_def domain_of_def split: option.splits sum.splits if_splits)
  from revise_outer_keep [OF ro] have k: "distinct keep" "set keep \<subseteq> set xdom" by auto
  have le: "length keep \<le> length xdom"
    using k by (metis card_mono distinct_card List.finite_set card_length le_trans)
  have lt: "set keep \<noteq> set xdom \<Longrightarrow> length keep < length xdom"
  proof -
    assume "set keep \<noteq> set xdom"
    with k(2) have "set keep \<subset> set xdom" by auto
    then have "card (set keep) < card (set xdom)" by (simp add: psubset_card_mono)
    with k(1) show ?thesis
      by (metis distinct_card card_length le_trans not_le)
  qed
  from store_size_update [OF xd, of keep]
  have eq: "store_size (AList.update x keep doms) + length xdom = store_size doms + length keep" .
  show "store_size doms' \<le> store_size doms"
    using res le eq by (auto split: if_splits)
  show "revised \<Longrightarrow> store_size doms' < store_size doms"
    using res lt eq by (auto split: if_splits)
qed

text \<open>
  The loop of \<open>ac3\<close> on the queue of arcs. \<open>neighbors(x) - {y}\<close> is a new set; the arcs
  \<open>(z, x)\<close> are appended in the order in which it iterates.
\<close>

function ac3_loop :: "crossword \<Rightarrow> domains \<Rightarrow> (variable \<times> variable) list \<Rightarrow> py_error + (bool \<times> domains)" where
  "ac3_loop cw doms [] = Inr (True, doms)"
| "ac3_loop cw doms ((x, y) # queue) =
     (case revise cw doms x y of
        Inl e \<Rightarrow> Inl e
      | Inr (revised, doms') \<Rightarrow>
          if revised then
            (case domain_of doms' x of
               Inl e \<Rightarrow> Inl e
             | Inr xdom \<Rightarrow>
                 if length xdom = 0 then Inr (False, doms')
                 else ac3_loop cw doms'
                        (queue @ map (\<lambda>z. (z, x)) (filter (\<lambda>z. z \<noteq> y) (neighbors cw x))))
          else ac3_loop cw doms' queue)"
  by pat_completeness auto

text \<open>
  The loop ends on every store and every queue: a revision that returns \<open>True\<close> makes
  the store smaller, and every other iteration leaves the store no larger and makes the
  queue shorter.
\<close>

lemma ac3_loop_total: "All ac3_loop_dom"
proof (relation "measures [\<lambda>(cw, doms, queue). store_size doms, \<lambda>(cw, doms, queue). length queue]")
  show "wf (measures [\<lambda>(cw, doms, queue). store_size doms, \<lambda>(cw, doms, queue). length queue])"
    by simp
next
  fix cw doms x y queue r revised doms' xdom
  assume "revise cw doms x y = Inr r" "(revised, doms') = r" "revised"
  then have "store_size doms' < store_size doms"
    using revise_store_size(2) [of cw doms x y revised doms'] by simp
  then show "((cw, doms', queue @ map (\<lambda>z. (z, x)) (filter (\<lambda>z. z \<noteq> y) (neighbors cw x))),
              (cw, doms, (x, y) # queue))
             \<in> measures [\<lambda>(cw, doms, queue). store_size doms, \<lambda>(cw, doms, queue). length queue]"
    by simp
next
  fix cw doms x y queue r revised doms'
  assume "revise cw doms x y = Inr r" "(revised, doms') = r" "\<not> revised"
  then have "store_size doms' \<le> store_size doms"
    using revise_store_size(1) [of cw doms x y revised doms'] by simp
  then show "((cw, doms', queue), (cw, doms, (x, y) # queue))
             \<in> measures [\<lambda>(cw, doms, queue). store_size doms, \<lambda>(cw, doms, queue). length queue]"
    by auto
qed

termination ac3_loop
  by (rule ac3_loop_total)

text \<open>
  \<open>ac3(arcs)\<close>: with \<open>arcs=None\<close> the queue starts with every arc \<open>(var, n)\<close>, \<open>var\<close> a key
  of the store and \<open>n\<close> a neighbour of \<open>var\<close>.
\<close>

definition initial_arcs :: "crossword \<Rightarrow> domains \<Rightarrow> (variable \<times> variable) list option \<Rightarrow> (variable \<times> variable) list" where
  "initial_arcs cw doms arcs =
     (case arcs of
        None \<Rightarrow> concat (map (\<lambda>var. map (\<lambda>n. (var, n)) (neighbors cw var)) (map fst doms))
      | Some a \<Rightarrow> a)"

definition ac3 :: "crossword \<Rightarrow> domains \<Rightarrow> (variable \<times> variable) list option \<Rightarrow> py_error + (bool \<times> domains)" where
  "ac3 cw doms arcs = ac3_loop cw doms (initial_arcs cw doms arcs)"

subsection \<open>Completeness and consistency of an assignment\<close>

text \<open>
  \<open>assignment_complete\<close>. A value of an assignment is a word, so the second loop of the
  method (no value is \<open>None\<close>) has nothing to reject.
\<close>

definition assignment_complete :: "crossword \<Rightarrow> assignment \<Rightarrow> bool" where
  "assignment_complete cw a = (set (map fst a) = set (variables cw))"

text \<open>
  The inner loop of \<open>consistent\<close>, over the neighbours of \<open>x\<close> that have a value. Both
  characters are read before they are compared.
\<close>

fun consistent_inner :: "crossword \<Rightarrow> assignment \<Rightarrow> variable \<Rightarrow> string \<Rightarrow> variable list \<Rightarrow> py_error + bool" where
  "consistent_inner cw a x x_value [] = Inr True"
| "consistent_inner cw a x x_value (neighbor # ns) =
     (case overlaps cw (x, neighbor) of
        None \<Rightarrow> Inl TypeError
      | Some (ox, on) \<Rightarrow>
          (case char_at x_value ox of
             Inl e \<Rightarrow> Inl e
           | Inr cx \<Rightarrow>
               (case map_of a neighbor of
                  None \<Rightarrow> Inl KeyError
                | Some n_value \<Rightarrow>
                    (case char_at n_value on of
                       Inl e \<Rightarrow> Inl e
                     | Inr cn \<Rightarrow>
                         if cx \<noteq> cn \<or> x_value = n_value then Inr False
                         else consistent_inner cw a x x_value ns))))"

text \<open>The outer loop, over the items of the assignment.\<close>

fun consistent_outer :: "crossword \<Rightarrow> assignment \<Rightarrow> assignment \<Rightarrow> py_error + bool" where
  "consistent_outer cw a [] = Inr True"
| "consistent_outer cw a ((x, x_value) # items) =
     (case consistent_inner cw a x x_value
             (filter (\<lambda>n. n \<in> set (map fst a)) (neighbors cw x)) of
        Inl e \<Rightarrow> Inl e
      | Inr ok \<Rightarrow> if ok then consistent_outer cw a items else Inr False)"

definition consistent :: "crossword \<Rightarrow> assignment \<Rightarrow> py_error + bool" where
  "consistent cw a = consistent_outer cw a a"

subsection \<open>\<open>order_domain_values\<close>\<close>

text \<open>The loop over the words \<open>value\<close> of one neighbour's domain; \<open>n\<close> is the counter.\<close>

fun odv_values :: "string \<Rightarrow> nat \<Rightarrow> nat \<Rightarrow> string list \<Rightarrow> nat \<Rightarrow> py_error + nat" where
  "odv_values dx ox on [] n = Inr n"
| "odv_values dx ox on (v # vs) n =
     (case char_at dx ox of
        Inl e \<Rightarrow> Inl e
      | Inr cx \<Rightarrow>
          (case char_at v on of
             Inl e \<Rightarrow> Inl e
           | Inr cv \<Rightarrow> odv_values dx ox on vs (if cx \<noteq> cv then n + 1 else n)))"

text \<open>The loop over the neighbours of \<open>var\<close> that have no value yet.\<close>

fun odv_neighbors :: "crossword \<Rightarrow> domains \<Rightarrow> variable \<Rightarrow> string \<Rightarrow> variable list \<Rightarrow> nat \<Rightarrow> py_error + nat" where
  "odv_neighbors cw doms var dx [] n = Inr n"
| "odv_neighbors cw doms var dx (neighbor # ns) n =
     (case overlaps cw (var, neighbor) of
        None \<Rightarrow> Inl TypeError
      | Some (ox, on) \<Rightarrow>
          (case domain_of doms neighbor of
             Inl e \<Rightarrow> Inl e
           | Inr ndom \<Rightarrow>
               (case odv_values dx ox on ndom n of
                  Inl e \<Rightarrow> Inl e
                | Inr n' \<Rightarrow> odv_neighbors cw doms var dx ns n')))"

text \<open>The loop over the words \<open>dx\<close> of the domain of \<open>var\<close>; \<open>c\<close> is the list of pairs.\<close>

fun odv_domain :: "crossword \<Rightarrow> domains \<Rightarrow> variable \<Rightarrow> variable list \<Rightarrow> string list \<Rightarrow> (string \<times> nat) list \<Rightarrow> py_error + (string \<times> nat) list" where
  "odv_domain cw doms var unassigned [] c = Inr c"
| "odv_domain cw doms var unassigned (dx # dxs) c =
     (case odv_neighbors cw doms var dx unassigned 0 of
        Inl e \<Rightarrow> Inl e
      | Inr n \<Rightarrow> odv_domain cw doms var unassigned dxs (c @ [(dx, n)]))"

text \<open>
  \<open>order_domain_values(var, assignment)\<close>. \<open>list.sort\<close> is stable, so on integer keys its
  result is that of the stable sort \<open>sort_key\<close>.
\<close>

definition order_domain_values :: "crossword \<Rightarrow> domains \<Rightarrow> variable \<Rightarrow> assignment \<Rightarrow> py_error + string list" where
  "order_domain_values cw doms var a =
     (case domain_of doms var of
        Inl e \<Rightarrow> Inl e
      | Inr vdom \<Rightarrow>
          (case odv_domain cw doms var
                  (filter (\<lambda>n. n \<notin> set (map fst a)) (neighbors cw var)) vdom [] of
             Inl e \<Rightarrow> Inl e
           | Inr c \<Rightarrow> Inr (map fst (sort_key snd c))))"

subsection \<open>\<open>select_unassigned_variable\<close>\<close>

text \<open>
  \<open>tied.sort(key=...)\<close> takes the set of neighbours as the key, and \<open><\<close> on Python sets is
  proper inclusion, which is not a total order: the result then depends on the sorting
  algorithm. The functions below are \<open>list.sort\<close> of CPython 3.8 on a list of fewer than
  64 elements (no merging happens): \<open>count_run\<close> finds the leading run, which is reversed
  when it is strictly descending, and \<open>binarysort\<close> inserts every other element by binary
  search. \<open>lt a b\<close> is \<open>key(a) < key(b)\<close>. The general properties proved of
  \<open>select_unassigned_variable\<close> use only that the sort permutes its list.
\<close>

fun run_length :: "('a \<Rightarrow> 'a \<Rightarrow> bool) \<Rightarrow> bool \<Rightarrow> 'a \<Rightarrow> 'a list \<Rightarrow> nat" where
  "run_length lt desc prev [] = 0"
| "run_length lt desc prev (x # xs) =
     (if lt x prev = desc then Suc (run_length lt desc x xs) else 0)"

function binary_position :: "('a \<Rightarrow> 'a \<Rightarrow> bool) \<Rightarrow> 'a \<Rightarrow> 'a list \<Rightarrow> nat \<Rightarrow> nat \<Rightarrow> nat" where
  "binary_position lt pivot xs l r =
     (if l < r then
        (let p = l + (r - l) div 2 in
         if lt pivot (xs ! p) then binary_position lt pivot xs l p
         else binary_position lt pivot xs (p + 1) r)
      else l)"
  by pat_completeness auto
termination
  by (relation "measure (\<lambda>(lt, pivot, xs, l, r). r - l)") auto

declare binary_position.simps [simp del]

fun binarysort :: "('a \<Rightarrow> 'a \<Rightarrow> bool) \<Rightarrow> 'a list \<Rightarrow> 'a list \<Rightarrow> 'a list" where
  "binarysort lt done [] = done"
| "binarysort lt done (pivot # rest) =
     (let l = binary_position lt pivot done 0 (length done)
      in binarysort lt (take l done @ pivot # drop l done) rest)"

definition py_sort :: "('a \<Rightarrow> 'a \<Rightarrow> bool) \<Rightarrow> 'a list \<Rightarrow> 'a list" where
  "py_sort lt xs =
     (case xs of
        [] \<Rightarrow> []
      | [x] \<Rightarrow> [x]
      | x0 # x1 # rest \<Rightarrow>
          (let desc = lt x1 x0;
               n = 2 + run_length lt desc x1 rest;
               run = take n xs
           in binarysort lt (if desc then rev run else run) (drop n xs)))"

text \<open>The list comprehension \<open>remaining\<close>, before it is sorted.\<close>

fun remaining_sizes :: "domains \<Rightarrow> variable list \<Rightarrow> py_error + (variable \<times> nat) list" where
  "remaining_sizes doms [] = Inr []"
| "remaining_sizes doms (var # vs) =
     (case domain_of doms var of
        Inl e \<Rightarrow> Inl e
      | Inr ws \<Rightarrow>
          (case remaining_sizes doms vs of
             Inl e \<Rightarrow> Inl e
           | Inr r \<Rightarrow> Inr ((var, length ws) # r)))"

text \<open>
  \<open>select_unassigned_variable(assignment)\<close>. \<open>remaining[0]\<close> raises \<open>IndexError\<close> when no
  slot is left; \<open>c\<close> is \<open>Counter(...)[min_domain[1]]\<close>, the number of slots whose domain
  has the least size.
\<close>

definition select_unassigned_variable :: "crossword \<Rightarrow> domains \<Rightarrow> assignment \<Rightarrow> py_error + variable" where
  "select_unassigned_variable cw doms a =
     (case remaining_sizes doms (filter (\<lambda>v. v \<notin> set (map fst a)) (variables cw)) of
        Inl e \<Rightarrow> Inl e
      | Inr unsorted \<Rightarrow>
          (case sort_key snd unsorted of
             [] \<Rightarrow> Inl IndexError
           | min_domain # others \<Rightarrow>
               (let remaining = min_domain # others;
                    c = length (filter (\<lambda>elem. snd elem = snd min_domain) remaining)
                in if c = 1 then Inr (fst min_domain)
                   else
                     (case py_sort (\<lambda>p q. set (neighbors cw (fst p)) \<subset> set (neighbors cw (fst q)))
                             (take c remaining) of
                        [] \<Rightarrow> Inl IndexError
                      | t # ts \<Rightarrow> Inr (fst t)))))"

subsection \<open>\<open>backtrack\<close> and \<open>solve\<close>\<close>

text \<open>
  The loop of \<open>backtrack\<close> over the ordered values of \<open>var\<close>; \<open>rec\<close> is the recursive call
  of \<open>backtrack\<close>. The extension is made on a copy of the assignment.
\<close>

fun try_values :: "(assignment \<Rightarrow> py_error + assignment option) \<Rightarrow> crossword \<Rightarrow> assignment \<Rightarrow> variable \<Rightarrow> string list \<Rightarrow> py_error + assignment option" where
  "try_values rec cw a var [] = Inr None"
| "try_values rec cw a var (v # vs) =
     (case consistent cw (AList.update var v a) of
        Inl e \<Rightarrow> Inl e
      | Inr ok \<Rightarrow>
          if ok then
            (case rec (AList.update var v a) of
               Inl e \<Rightarrow> Inl e
             | Inr None \<Rightarrow> try_values rec cw a var vs
             | Inr (Some result) \<Rightarrow> Inr (Some result))
          else try_values rec cw a var vs)"

lemma try_values_ext:
  "(\<And>v. v \<in> set vs \<Longrightarrow> rec (AList.update var v a) = rec' (AList.update var v a)) \<Longrightarrow>
   try_values rec cw a var vs = try_values rec' cw a var vs"
  by (induction vs) (auto split: sum.splits option.splits)

lemma try_values_cong [fundef_cong]:
  "cw = cw' \<Longrightarrow> a = a' \<Longrightarrow> var = var' \<Longrightarrow> vs = vs' \<Longrightarrow>
   (\<And>v. v \<in> set vs' \<Longrightarrow> rec (AList.update var' v a') = rec' (AList.update var' v a')) \<Longrightarrow>
   try_values rec cw a var vs = try_values rec' cw' a' var' vs'"
  using try_values_ext [of vs' rec var' a' rec' cw'] by simp

lemma set_take_drop: "set (take n xs) \<union> set (drop n xs) = set xs"
  by (metis append_take_drop_id set_append)

lemma set_insert_at: "set (take l pre @ pivot # drop l pre) = insert pivot (set pre)"
  using set_take_drop [of l pre] by auto

lemma set_binarysort: "set (binarysort lt pre rest) = set pre \<union> set rest"
  by (induction rest arbitrary: pre) (simp_all add: Let_def set_take_drop Un_assoc [symmetric])

lemma set_py_sort: "set (py_sort lt xs) = set xs"
proof (cases xs)
  case Nil
  then show ?thesis by (simp add: py_sort_def)
next
  case (Cons x0 ys)
  show ?thesis
  proof (cases ys)
    case Nil
    with Cons show ?thesis by (simp add: py_sort_def)
  next
    case (Cons x1 rest)
    define n where "n = 2 + run_length lt (lt x1 x0) x1 rest"
    have "py_sort lt xs =
            binarysort lt (if lt x1 x0 then rev (take n xs) else take n xs) (drop n xs)"
      unfolding py_sort_def n_def Let_def \<open>xs = x0 # ys\<close> Cons by simp
    then show ?thesis
      using set_take_drop [of n xs] by (simp add: set_binarysort)
  qed
qed

lemma remaining_sizes_map:
  "remaining_sizes doms vs = Inr r \<Longrightarrow> map fst r = vs"
  by (induction vs arbitrary: r) (auto split: sum.splits)

lemma select_unassigned_variable_unassigned:
  assumes "select_unassigned_variable cw doms a = Inr var"
  shows "var \<in> set (variables cw) \<and> var \<notin> set (map fst a)"
proof -
  from assms obtain unsorted where
    u: "remaining_sizes doms (filter (\<lambda>v. v \<notin> set (map fst a)) (variables cw)) = Inr unsorted"
    by (auto simp: select_unassigned_variable_def split: sum.splits)
  define remaining where "remaining = sort_key snd unsorted"
  have fst_rem: "fst ` set remaining = {v \<in> set (variables cw). v \<notin> set (map fst a)}"
    using remaining_sizes_map [OF u] unfolding remaining_def
    by (metis set_filter set_map set_sort)
  from assms u obtain min_domain others where mo: "remaining = min_domain # others"
    by (auto simp: select_unassigned_variable_def remaining_def split: list.splits)
  define c where "c = length (filter (\<lambda>elem. snd elem = snd min_domain) remaining)"
  define tied where "tied = py_sort (\<lambda>p q. set (neighbors cw (fst p)) \<subset> set (neighbors cw (fst q))) (take c remaining)"
  have "var = fst min_domain \<or> (\<exists>t ts. tied = t # ts \<and> var = fst t)"
    using assms u mo unfolding select_unassigned_variable_def remaining_def [symmetric]
    by (auto simp: Let_def c_def tied_def remaining_def [symmetric] split: if_splits list.splits)
  moreover have "set tied \<subseteq> set remaining"
    unfolding tied_def set_py_sort by (rule set_take_subset)
  ultimately have "var \<in> fst ` set remaining"
    using mo by (metis image_eqI list.set_intros(1) subsetD)
  with fst_rem show ?thesis by auto
qed

text \<open>\<open>backtrack(assignment)\<close>: \<open>Inr None\<close> is the result \<open>None\<close> of the method.\<close>

function backtrack :: "crossword \<Rightarrow> domains \<Rightarrow> assignment \<Rightarrow> py_error + assignment option" where
  "backtrack cw doms a =
     (if assignment_complete cw a then Inr (Some a)
      else
        (case select_unassigned_variable cw doms a of
           Inl e \<Rightarrow> Inl e
         | Inr var \<Rightarrow>
             (case order_domain_values cw doms var a of
                Inl e \<Rightarrow> Inl e
              | Inr vals \<Rightarrow> try_values (\<lambda>new_assignment. backtrack cw doms new_assignment) cw a var vals)))"
  by pat_completeness auto
termination
proof (relation "measure (\<lambda>(cw, doms, a). card (set (variables cw) - set (map fst a)))")
  show "wf (measure (\<lambda>(cw, doms, a). card (set (variables cw) - set (map fst a))))"
    by simp
next
  fix cw doms a var vals v
  assume "select_unassigned_variable cw doms a = Inr var"
  then have var: "var \<in> set (variables cw)" "var \<notin> set (map fst a)"
    using select_unassigned_variable_unassigned by blast+
  have keys: "set (map fst (AList.update var v a)) = insert var (set (map fst a))"
    using AList.dom_update [of var v a] by simp
  have "set (variables cw) - insert var (set (map fst a)) \<subset> set (variables cw) - set (map fst a)"
    using var by auto
  then have "card (set (variables cw) - insert var (set (map fst a)))
               < card (set (variables cw) - set (map fst a))"
    by (simp add: psubset_card_mono)
  then show "((cw, doms, AList.update var v a), (cw, doms, a))
             \<in> measure (\<lambda>(cw, doms, a). card (set (variables cw) - set (map fst a)))"
    using keys by simp
qed

declare backtrack.simps [simp del]

text \<open>
  \<open>solve()\<close> on a creator whose store is \<open>doms\<close>: the result of \<open>ac3\<close> is dropped, and
  the search starts from the empty assignment on the store that \<open>ac3\<close> leaves.
\<close>

definition solve :: "crossword \<Rightarrow> domains \<Rightarrow> py_error + assignment option" where
  "solve cw doms =
     (case ac3 cw (enforce_node_consistency doms) None of
        Inl e \<Rightarrow> Inl e
      | Inr (ok, doms') \<Rightarrow> backtrack cw doms' [])"

subsection \<open>\<open>backtrack\<close> with the assignments as objects\<close>

text \<open>
  \<open>backtrack\<close> above takes and returns assignments as values. In the program an
  assignment is a \<open>dict\<close> object that the caller keeps: \<open>assignment.copy()\<close> makes a new
  object, \<open>new_assignment[var] = value\<close> writes into that new object, and the result of
  \<open>backtrack\<close> is a reference. To speak about what a call leaves behind, the state below
  holds \<open>self.domains\<close> and the \<open>dict\<close> objects by address, and \<open>backtrack_h\<close> takes and
  returns addresses and passes the state along. The methods it calls (\<open>assignment_complete\<close>,
  \<open>select_unassigned_variable\<close>, \<open>order_domain_values\<close>, \<open>consistent\<close>) assign nothing in
  the program and read the state here. The first argument bounds the depth of the
  recursion; \<open>None\<close> is a call cut off by that bound.
\<close>

record search_state =
  domains_of :: domains
  dicts :: "assignment list"

fun backtrack_h :: "nat \<Rightarrow> crossword \<Rightarrow> search_state \<Rightarrow> nat \<Rightarrow> (py_error + nat option \<times> search_state) option"
  and try_values_h :: "nat \<Rightarrow> crossword \<Rightarrow> search_state \<Rightarrow> nat \<Rightarrow> variable \<Rightarrow> string list \<Rightarrow> (py_error + nat option \<times> search_state) option"
  where
  "backtrack_h 0 cw st addr = None"
| "backtrack_h (Suc fuel) cw st addr =
     (if assignment_complete cw (dicts st ! addr) then Some (Inr (Some addr, st))
      else
        (case select_unassigned_variable cw (domains_of st) (dicts st ! addr) of
           Inl e \<Rightarrow> Some (Inl e)
         | Inr var \<Rightarrow>
             (case order_domain_values cw (domains_of st) var (dicts st ! addr) of
                Inl e \<Rightarrow> Some (Inl e)
              | Inr vals \<Rightarrow> try_values_h fuel cw st addr var vals)))"
| "try_values_h fuel cw st addr var [] = Some (Inr (None, st))"
| "try_values_h fuel cw st addr var (v # vs) =
     (let new_assignment = length (dicts st);
          st1 = st\<lparr>dicts := dicts st @ [dicts st ! addr]\<rparr>;
          st2 = st1\<lparr>dicts := (dicts st1)[new_assignment := AList.update var v (dicts st1 ! new_assignment)]\<rparr>
      in case consistent cw (dicts st2 ! new_assignment) of
           Inl e \<Rightarrow> Some (Inl e)
         | Inr ok \<Rightarrow>
             if ok then
               (case backtrack_h fuel cw st2 new_assignment of
                  None \<Rightarrow> None
                | Some (Inl e) \<Rightarrow> Some (Inl e)
                | Some (Inr (None, st3)) \<Rightarrow> try_values_h fuel cw st3 addr var vs
                | Some (Inr (Some result, st3)) \<Rightarrow> Some (Inr (Some result, st3)))
             else try_values_h fuel cw st2 addr var vs)"

section \<open>Notions of the specification\<close>

text \<open>
  Two words are compatible at an overlap when they agree on the shared letter and are not
  the same word; a word of \<open>x\<close> is supported by \<open>y\<close> when the domain of \<open>y\<close> holds a
  compatible word.
\<close>

definition compatible :: "nat \<Rightarrow> nat \<Rightarrow> string \<Rightarrow> string \<Rightarrow> bool" where
  "compatible o_v1 o_v2 wx wy = (wx ! o_v1 = wy ! o_v2 \<and> wx \<noteq> wy)"

definition supported :: "domains \<Rightarrow> variable \<Rightarrow> nat \<Rightarrow> nat \<Rightarrow> string \<Rightarrow> bool" where
  "supported doms y o_v1 o_v2 wx =
     (case map_of doms y of
        None \<Rightarrow> False
      | Some ydom \<Rightarrow> (\<exists>wy \<in> set ydom. compatible o_v1 o_v2 wx wy))"

text \<open>\<open>w in self.domains[x]\<close>.\<close>

definition has_word :: "domains \<Rightarrow> variable \<Rightarrow> string \<Rightarrow> bool" where
  "has_word doms x w = (case map_of doms x of None \<Rightarrow> False | Some ws \<Rightarrow> w \<in> set ws)"

text \<open>
  The overlap map is symmetric: \<open>overlaps[y, x]\<close> is \<open>overlaps[x, y]\<close> with the two indices
  swapped, and undefined when that is.
\<close>

definition overlaps_symmetric :: "crossword \<Rightarrow> bool" where
  "overlaps_symmetric cw = (\<forall>x y. overlaps cw (y, x) = map_option prod.swap (overlaps cw (x, y)))"

text \<open>
  The run of the loop of \<open>ac3\<close>: \<open>ac3_reaches cw s t\<close> when the loop started with the
  store and queue \<open>s\<close> stands, at the head of some later iteration, with the store and
  queue \<open>t\<close>. The two rules are the two ways through the body that go on.
\<close>

inductive ac3_reaches :: "crossword \<Rightarrow> domains \<times> (variable \<times> variable) list \<Rightarrow> domains \<times> (variable \<times> variable) list \<Rightarrow> bool"
  for cw :: crossword and s :: "domains \<times> (variable \<times> variable) list" where
  start: "ac3_reaches cw s s"
| revised:
    "ac3_reaches cw s (doms, (x, y) # queue) \<Longrightarrow>
     revise cw doms x y = Inr (True, doms') \<Longrightarrow>
     domain_of doms' x = Inr xdom \<Longrightarrow> length xdom \<noteq> 0 \<Longrightarrow>
     ac3_reaches cw s (doms', queue @ map (\<lambda>z. (z, x)) (filter (\<lambda>z. z \<noteq> y) (neighbors cw x)))"
| unrevised:
    "ac3_reaches cw s (doms, (x, y) # queue) \<Longrightarrow>
     revise cw doms x y = Inr (False, doms') \<Longrightarrow>
     ac3_reaches cw s (doms', queue)"

text \<open>
  The number of words that the choice of \<open>dx\<close> for \<open>var\<close> eliminates: over the neighbours
  of \<open>var\<close> without a value, the words of the neighbour's domain that differ from \<open>dx\<close>
  at the overlap.
\<close>

definition eliminated :: "crossword \<Rightarrow> domains \<Rightarrow> assignment \<Rightarrow> variable \<Rightarrow> string \<Rightarrow> nat" where
  "eliminated cw doms a var dx =
     sum_list (map (\<lambda>neighbor.
                 case overlaps cw (var, neighbor) of
                   None \<Rightarrow> 0
                 | Some (ox, on) \<Rightarrow>
                     (case map_of doms neighbor of
                        None \<Rightarrow> 0
                      | Some ndom \<Rightarrow> length (filter (\<lambda>v. dx ! ox \<noteq> v ! on) ndom)))
               (filter (\<lambda>n. n \<notin> set (map fst a)) (neighbors cw var)))"

text \<open>
  An assignment satisfies the overlaps when any two of its slots that are neighbours hold
  compatible words.
\<close>

definition satisfies_overlaps :: "crossword \<Rightarrow> assignment \<Rightarrow> bool" where
  "satisfies_overlaps cw a =
     (\<forall>x y wx wy o_x o_y.
        map_of a x = Some wx \<and> map_of a y = Some wy \<and> y \<in> set (variables cw) \<and>
        overlaps cw (x, y) = Some (o_x, o_y)
        \<longrightarrow> o_x < length wx \<and> o_y < length wy \<and> compatible o_x o_y wx wy)"

text \<open>
  The overlap indices of the slots of the crossword lie within the lengths of the slots;
  every word of a domain has the length of its slot.
\<close>

definition overlaps_in_range :: "crossword \<Rightarrow> bool" where
  "overlaps_in_range cw =
     (\<forall>x \<in> set (variables cw). \<forall>y \<in> set (variables cw). \<forall>o_x o_y.
        overlaps cw (x, y) = Some (o_x, o_y) \<longrightarrow> o_x < var_length x \<and> o_y < var_length y)"

definition node_consistent :: "domains \<Rightarrow> bool" where
  "node_consistent doms = (\<forall>(var, ws) \<in> set doms. \<forall>w \<in> set ws. length w = var_length var)"

text \<open>
  A complete and consistent assignment: exactly one entry for every slot of the crossword,
  and any two slots with a defined overlap hold words that agree at the overlap indices
  and are not the same word. A solution in a store is such an assignment with every word
  taken from the domain of its slot.
\<close>

definition complete_and_consistent :: "crossword \<Rightarrow> assignment \<Rightarrow> bool" where
  "complete_and_consistent cw r =
     (set (map fst r) = set (variables cw) \<and> distinct (map fst r) \<and>
      (\<forall>x y wx wy o_x o_y.
         map_of r x = Some wx \<and> map_of r y = Some wy \<and> overlaps cw (x, y) = Some (o_x, o_y)
         \<longrightarrow> o_x < length wx \<and> o_y < length wy \<and> wx ! o_x = wy ! o_y \<and> wx \<noteq> wy))"

definition solution :: "crossword \<Rightarrow> domains \<Rightarrow> assignment \<Rightarrow> bool" where
  "solution cw doms sol =
     (complete_and_consistent cw sol \<and> (\<forall>(x, w) \<in> set sol. has_word doms x w))"

text \<open>
  What the search relies on: overlaps in range, a node-consistent store with a domain for
  every slot; and, of an assignment, one entry per key, keys among the slots, words from
  the domains.
\<close>

definition search_ready :: "crossword \<Rightarrow> domains \<Rightarrow> bool" where
  "search_ready cw doms =
     (overlaps_in_range cw \<and> node_consistent doms \<and> set (variables cw) \<subseteq> set (map fst doms))"

definition drawn_from :: "crossword \<Rightarrow> domains \<Rightarrow> assignment \<Rightarrow> bool" where
  "drawn_from cw doms a =
     (distinct (map fst a) \<and> set (map fst a) \<subseteq> set (variables cw) \<and>
      (\<forall>(x, w) \<in> set a. has_word doms x w))"

text \<open>
  A later state extends an earlier one when \<open>self.domains\<close> is the same and every object
  of the earlier state is still there, unchanged; \<open>returned\<close> reads the result of
  \<open>backtrack_h\<close> as a value; \<open>unassigned\<close> counts the slots without a value.
\<close>

definition extends :: "search_state \<Rightarrow> search_state \<Rightarrow> bool" where
  "extends st st' = (domains_of st' = domains_of st \<and> (\<exists>new. dicts st' = dicts st @ new))"

definition returned :: "py_error + nat option \<times> search_state \<Rightarrow> py_error + assignment option" where
  "returned out =
     (case out of
        Inl e \<Rightarrow> Inl e
      | Inr (res, st') \<Rightarrow> Inr (map_option (\<lambda>r. dicts st' ! r) res))"

definition unassigned :: "crossword \<Rightarrow> assignment \<Rightarrow> nat" where
  "unassigned cw a = card (set (variables cw) - set (map fst a))"

section \<open>Concrete crosswords\<close>

text \<open>
  A corner: an across slot and a down slot of length 2 that share their first cell, and
  the word list \<open>AB\<close>, \<open>CD\<close>. No two different words agree on the first letter, so no
  word of either slot has a partner in the other slot.
\<close>

definition corner_across :: variable where
  "corner_across = Variable 0 0 ACROSS 2"

definition corner_down :: variable where
  "corner_down = Variable 0 0 DOWN 2"

definition corner_crossword :: crossword where
  "corner_crossword =
     \<lparr>variables = [corner_across, corner_down],
      words = [''AB'', ''CD''],
      overlaps = map_of [((corner_across, corner_down), (0, 0)),
                         ((corner_down, corner_across), (0, 0))]\<rparr>"

text \<open>
  Four slots on a grid of five rows and four columns (\<open>#\<close> is a blocked cell):
  \<^verbatim>\<open>
    __#_
    #_#_
    #_#_
    #___
    ###_
  \<close>
  \<open>tie_top\<close> (across, length 2) crosses \<open>tie_stem\<close> (down, length 4); \<open>tie_foot\<close> (across,
  length 3) crosses \<open>tie_stem\<close> and \<open>tie_post\<close> (down, length 5). The word list has one
  word of length 2, one of length 3 and two of lengths 4 and 5, and every word has a
  partner in every crossing slot.
\<close>

definition tie_top :: variable where
  "tie_top = Variable 0 0 ACROSS 2"

definition tie_stem :: variable where
  "tie_stem = Variable 0 1 DOWN 4"

definition tie_foot :: variable where
  "tie_foot = Variable 3 1 ACROSS 3"

definition tie_post :: variable where
  "tie_post = Variable 0 3 DOWN 5"

definition tie_crossword :: crossword where
  "tie_crossword =
     \<lparr>variables = [tie_foot, tie_stem, tie_top, tie_post],
      words = [''AB'', ''EFG'', ''BCDE'', ''BXYE'', ''HIJGK'', ''LMNGO''],
      overlaps = map_of [((tie_top, tie_stem), (1, 0)), ((tie_stem, tie_top), (0, 1)),
                         ((tie_foot, tie_stem), (0, 3)), ((tie_stem, tie_foot), (3, 0)),
                         ((tie_foot, tie_post), (2, 3)), ((tie_post, tie_foot), (3, 2))]\<rparr>"

definition tie_domains :: domains where
  "tie_domains =
     [(tie_foot, [''EFG'']), (tie_stem, [''BCDE'', ''BXYE'']),
      (tie_top, [''AB'']), (tie_post, [''HIJGK'', ''LMNGO''])]"

lemma tie_domains_preprocessed:
  "ac3 tie_crossword (enforce_node_consistency (init_domains tie_crossword)) None
     = Inr (True, tie_domains)"
  by code_simp

text \<open>
  The scenario of the specification: an across slot and a down slot of length 3, where
  the last letter of the first is the first letter of the second, and the words \<open>cat\<close>,
  \<open>ten\<close>, \<open>ace\<close>.
\<close>

definition scenario_across :: variable where
  "scenario_across = Variable 0 0 ACROSS 3"

definition scenario_down :: variable where
  "scenario_down = Variable 0 2 DOWN 3"

definition scenario_crossword :: crossword where
  "scenario_crossword =
     \<lparr>variables = [scenario_across, scenario_down],
      words = [''cat'', ''ten'', ''ace''],
      overlaps = map_of [((scenario_across, scenario_down), (2, 0)),
                         ((scenario_down, scenario_across), (0, 2))]\<rparr>"

definition scenario_domains :: domains where
  "scenario_domains =
     [(scenario_across, [''cat'', ''ten'', ''ace'']), (scenario_down, [''cat'', ''ten'', ''ace''])]"

lemma scenario_domains_node_consistent:
  "enforce_node_consistency (init_domains scenario_crossword) = scenario_domains"
  by code_simp

section \<open>Properties of \<open>revise\<close> and of the loop of \<open>ac3\<close>\<close>

lemma revise_inner_result:
  "revise_inner dx dx_c o_v2 dys keep = Inr keep' \<Longrightarrow>
     (\<forall>dy \<in> set dys. o_v2 < length dy) \<and>
     set keep' = set keep \<union> (if \<exists>dy \<in> set dys. dx_c = dy ! o_v2 \<and> dx \<noteq> dy then {dx} else {})"
proof (induction dys arbitrary: keep)
  case Nil
  then show ?case by auto
next
  case (Cons dy dys)
  from Cons.prems obtain dy_c where c: "char_at dy o_v2 = Inr dy_c"
    and r: "revise_inner dx dx_c o_v2 dys (if dx_c = dy_c \<and> dx \<noteq> dy then set_add dx keep else keep) = Inr keep'"
    by (auto split: sum.splits)
  from c have b: "o_v2 < length dy" "dy_c = dy ! o_v2"
    by (auto simp: char_at_def split: if_splits)
  from Cons.IH [OF r] b show ?case
    by (auto split: if_splits)
qed

lemma revise_outer_result:
  "revise_outer doms y o_v1 o_v2 dxs keep = Inr keep' \<Longrightarrow>
     (\<forall>dx \<in> set dxs. o_v1 < length dx) \<and>
     (dxs \<noteq> [] \<longrightarrow> (\<exists>ydom. map_of doms y = Some ydom \<and> (\<forall>dy \<in> set ydom. o_v2 < length dy))) \<and>
     set keep' = set keep \<union> {dx \<in> set dxs. supported doms y o_v1 o_v2 dx}"
proof (induction dxs arbitrary: keep)
  case Nil
  then show ?case by auto
next
  case (Cons dx dxs)
  from Cons.prems obtain dx_c ydom k1 where
    c: "char_at dx o_v1 = Inr dx_c" and d: "map_of doms y = Some ydom"
    and i: "revise_inner dx dx_c o_v2 ydom keep = Inr k1"
    and r: "revise_outer doms y o_v1 o_v2 dxs k1 = Inr keep'"
    by (auto simp: domain_of_def split: sum.splits option.splits)
  from c have b: "o_v1 < length dx" "dx_c = dx ! o_v1"
    by (auto simp: char_at_def split: if_splits)
  from revise_inner_result [OF i]
  have yb: "\<forall>dy \<in> set ydom. o_v2 < length dy"
    and k1: "set k1 = set keep \<union> (if supported doms y o_v1 o_v2 dx then {dx} else {})"
    using b d by (auto simp: supported_def compatible_def)
  from Cons.IH [OF r] have
    ih: "\<forall>dx \<in> set dxs. o_v1 < length dx"
        "set keep' = set k1 \<union> {dx \<in> set dxs. supported doms y o_v1 o_v2 dx}"
    by auto
  show ?case
    using b(1) d yb ih k1 by (auto split: if_splits)
qed

lemma revise_Inr:
  assumes "revise cw doms x y = Inr (revised, doms')"
  obtains o_v1 o_v2 xdom keep where
    "overlaps cw (x, y) = Some (o_v1, o_v2)"
    "map_of doms x = Some xdom"
    "\<forall>dx \<in> set xdom. o_v1 < length dx"
    "xdom \<noteq> [] \<Longrightarrow> \<exists>ydom. map_of doms y = Some ydom \<and> (\<forall>dy \<in> set ydom. o_v2 < length dy)"
    "distinct keep"
    "set keep = {dx \<in> set xdom. supported doms y o_v1 o_v2 dx}"
    "keep \<noteq> [] \<Longrightarrow> revised = (set keep \<noteq> set xdom) \<and> doms' = AList.update x keep doms"
    "keep = [] \<Longrightarrow> \<not> revised \<and> doms' = doms"
proof -
  from assms obtain o_v1 o_v2 xdom keep where
    ov: "overlaps cw (x, y) = Some (o_v1, o_v2)" and xd: "map_of doms x = Some xdom"
    and ro: "revise_outer doms y o_v1 o_v2 xdom [] = Inr keep"
    and res: "(revised, doms') = (if keep \<noteq> [] then (set keep \<noteq> set xdom, AList.update x keep doms) else (False, doms))"
    by (auto simp: revise_def domain_of_def split: option.splits sum.splits if_splits)
  from revise_outer_keep [OF ro] have "distinct keep" by simp
  moreover from revise_outer_result [OF ro]
  have "\<forall>dx \<in> set xdom. o_v1 < length dx"
    "xdom \<noteq> [] \<Longrightarrow> \<exists>ydom. map_of doms y = Some ydom \<and> (\<forall>dy \<in> set ydom. o_v2 < length dy)"
    "set keep = {dx \<in> set xdom. supported doms y o_v1 o_v2 dx}"
    by auto
  ultimately show ?thesis
    using that [of o_v1 o_v2 xdom keep] ov xd res by (auto split: if_splits)
qed

lemma revise_True_domain:
  assumes "revise cw doms x y = Inr (True, doms')"
  shows "\<exists>keep. domain_of doms' x = Inr keep \<and> keep \<noteq> []"
proof -
  from assms obtain o_v1 o_v2 xdom keep where
    k: "keep \<noteq> [] \<Longrightarrow> doms' = AList.update x keep doms" "keep = [] \<Longrightarrow> \<not> True \<and> doms' = doms"
    by (rule revise_Inr) blast
  then have "keep \<noteq> []" by blast
  with k(1) have "domain_of doms' x = Inr keep"
    by (simp add: domain_of_def AList.update_conv')
  with \<open>keep \<noteq> []\<close> show ?thesis by blast
qed

lemma ac3_loop_never_False: "ac3_loop cw doms queue \<noteq> Inr (False, d)"
proof (induction cw doms queue rule: ac3_loop.induct)
  case (1 cw doms)
  then show ?case by simp
next
  case (2 cw doms x y queue)
  show ?case
  proof (cases "revise cw doms x y")
    case (Inl e)
    then show ?thesis by simp
  next
    case (Inr r)
    obtain revised doms' where r: "r = (revised, doms')" by (cases r)
    show ?thesis
    proof (cases revised)
      case True
      with Inr r have "revise cw doms x y = Inr (True, doms')" by simp
      from revise_True_domain [OF this]
      obtain keep where k: "domain_of doms' x = Inr keep" "keep \<noteq> []" by blast
      with 2(1) [of r revised doms' keep] Inr r True show ?thesis by simp
    next
      case False
      with 2(2) [of r revised doms'] Inr r show ?thesis by simp
    qed
  qed
qed

lemma has_word_update:
  "has_word (AList.update x keep doms) z w = (if z = x then w \<in> set keep else has_word doms z w)"
  by (simp add: has_word_def AList.update_conv')

lemma ac3_reaches_trans:
  "ac3_reaches cw t u \<Longrightarrow> ac3_reaches cw s t \<Longrightarrow> ac3_reaches cw s u"
proof (induction rule: ac3_reaches.induct)
  case start
  then show ?case .
next
  case (revised doms x y queue doms' xdom)
  then show ?case using ac3_reaches.revised by blast
next
  case (unrevised doms x y queue doms')
  then show ?case using ac3_reaches.unrevised by blast
qed

lemma ac3_loop_reaches:
  "ac3_loop cw doms queue = Inr (ok, d) \<Longrightarrow> ac3_reaches cw (doms, queue) (d, [])"
proof (induction cw doms queue rule: ac3_loop.induct)
  case (1 cw doms)
  then show ?case by (simp add: ac3_reaches.start)
next
  case (2 cw doms x y queue)
  from "2.prems" obtain revised doms' where r: "revise cw doms x y = Inr (revised, doms')"
    by (auto split: sum.splits)
  show ?case
  proof (cases revised)
    case True
    with r have rT: "revise cw doms x y = Inr (True, doms')" by simp
    with "2.prems" obtain xdom where xd: "domain_of doms' x = Inr xdom" "length xdom \<noteq> 0"
      and l: "ac3_loop cw doms' (queue @ map (\<lambda>z. (z, x)) (filter (\<lambda>z. z \<noteq> y) (neighbors cw x))) = Inr (ok, d)"
      using ac3_loop_never_False [of cw doms "(x, y) # queue"]
      by (auto split: sum.splits if_splits)
    from "2.IH"(1) [OF rT refl _ xd l]
    have "ac3_reaches cw (doms', queue @ map (\<lambda>z. (z, x)) (filter (\<lambda>z. z \<noteq> y) (neighbors cw x))) (d, [])"
      by simp
    moreover have "ac3_reaches cw (doms, (x, y) # queue)
        (doms', queue @ map (\<lambda>z. (z, x)) (filter (\<lambda>z. z \<noteq> y) (neighbors cw x)))"
      using ac3_reaches.revised [OF ac3_reaches.start rT xd] .
    ultimately show ?thesis by (rule ac3_reaches_trans)
  next
    case False
    with r have rF: "revise cw doms x y = Inr (False, doms')" by simp
    with "2.prems" have l: "ac3_loop cw doms' queue = Inr (ok, d)" by simp
    from "2.IH"(2) [OF rF refl _ l] have "ac3_reaches cw (doms', queue) (d, [])" by simp
    moreover have "ac3_reaches cw (doms, (x, y) # queue) (doms', queue)"
      using ac3_reaches.unrevised [OF ac3_reaches.start rF] .
    ultimately show ?thesis by (rule ac3_reaches_trans)
  qed
qed

lemma revise_inner_not_TypeError: "revise_inner dx dx_c o_v2 dys keep \<noteq> Inl TypeError"
  by (induction dys arbitrary: keep) (auto simp: char_at_def split: sum.splits)

lemma revise_outer_not_TypeError: "revise_outer doms y o_v1 o_v2 dxs keep \<noteq> Inl TypeError"
  by (induction dxs arbitrary: keep)
     (auto simp: char_at_def domain_of_def revise_inner_not_TypeError split: sum.splits option.splits)

lemma revise_TypeError: "revise cw doms x y = Inl TypeError \<longleftrightarrow> overlaps cw (x, y) = None"
  by (auto simp: revise_def domain_of_def revise_outer_not_TypeError split: sum.splits option.splits)

lemma neighbors_overlap: "z \<in> set (neighbors cw x) \<Longrightarrow> overlaps cw (x, z) \<noteq> None"
  by (simp add: neighbors_def)

lemma overlaps_symmetric_None:
  "overlaps_symmetric cw \<Longrightarrow> overlaps cw (x, z) \<noteq> None \<Longrightarrow> overlaps cw (z, x) \<noteq> None"
  unfolding overlaps_symmetric_def by (metis option.map_disc_iff)

lemma initial_arcs_overlap:
  "(u, v) \<in> set (initial_arcs cw doms None) \<Longrightarrow> overlaps cw (u, v) \<noteq> None"
  by (auto simp: initial_arcs_def neighbors_def)

lemma ac3_reaches_overlap:
  assumes "ac3_reaches cw s t" "overlaps_symmetric cw"
    and "\<forall>(u, v) \<in> set (snd s). overlaps cw (u, v) \<noteq> None"
  shows "\<forall>(u, v) \<in> set (snd t). overlaps cw (u, v) \<noteq> None"
  using assms
proof (induction rule: ac3_reaches.induct)
  case start
  then show ?case by simp
next
  case (revised doms x y queue doms' xdom)
  then have "\<forall>(u, v) \<in> set queue. overlaps cw (u, v) \<noteq> None" by simp
  moreover have "overlaps cw (z, x) \<noteq> None" if "z \<in> set (neighbors cw x)" for z
    using that revised.prems(1) neighbors_overlap overlaps_symmetric_None by blast
  ultimately show ?case by auto
next
  case (unrevised doms x y queue doms')
  then show ?case by simp
qed

lemma ac3_loop_not_TypeError:
  "overlaps_symmetric cw \<Longrightarrow> \<forall>(u, v) \<in> set queue. overlaps cw (u, v) \<noteq> None \<Longrightarrow>
   ac3_loop cw doms queue \<noteq> Inl TypeError"
proof (induction cw doms queue rule: ac3_loop.induct)
  case (1 cw doms)
  then show ?case by simp
next
  case (2 cw doms x y queue)
  have nt: "revise cw doms x y \<noteq> Inl TypeError"
    using "2.prems"(2) by (simp add: revise_TypeError)
  have q: "\<forall>(u, v) \<in> set queue. overlaps cw (u, v) \<noteq> None"
    using "2.prems"(2) by simp
  have q': "\<forall>(u, v) \<in> set (queue @ map (\<lambda>z. (z, x)) (filter (\<lambda>z. z \<noteq> y) (neighbors cw x))).
              overlaps cw (u, v) \<noteq> None"
    using q "2.prems"(1) neighbors_overlap overlaps_symmetric_None by fastforce
  show ?case
  proof (cases "revise cw doms x y")
    case (Inl e)
    with nt show ?thesis by simp
  next
    case (Inr r)
    obtain revised doms' where r: "r = (revised, doms')" by (cases r)
    show ?thesis
    proof (cases revised)
      case True
      show ?thesis
      proof (cases "domain_of doms' x")
        case (Inl e)
        then have "e = KeyError" by (auto simp: domain_of_def split: option.splits)
        with Inl Inr r True show ?thesis by simp
      next
        case (Inr xdom)
        show ?thesis
        proof (cases "length xdom = 0")
          case True
          with Inr \<open>revise cw doms x y = Inr r\<close> r \<open>revised\<close> show ?thesis by simp
        next
          case False
          from "2.IH"(1) [OF \<open>revise cw doms x y = Inr r\<close> r [symmetric] \<open>revised\<close> Inr False "2.prems"(1) q']
          show ?thesis
            using Inr \<open>revise cw doms x y = Inr r\<close> r \<open>revised\<close> False by simp
        qed
      qed
    next
      case False
      from "2.IH"(2) [OF Inr r [symmetric] False "2.prems"(1) q]
      show ?thesis using Inr r False by simp
    qed
  qed
qed

lemma ac3_loop_faults_on_arc_without_overlap:
  "(u, v) \<in> set queue \<Longrightarrow> overlaps cw (u, v) = None \<Longrightarrow> \<exists>e. ac3_loop cw doms queue = Inl e"
proof (induction cw doms queue rule: ac3_loop.induct)
  case (1 cw doms)
  then show ?case by simp
next
  case (2 cw doms x y queue)
  show ?case
  proof (cases "revise cw doms x y")
    case (Inl e)
    then show ?thesis by simp
  next
    case (Inr r)
    then have "overlaps cw (x, y) \<noteq> None"
      using revise_TypeError [of cw doms x y] by auto
    with "2.prems" have inq: "(u, v) \<in> set queue" by auto
    obtain revised doms' where r: "r = (revised, doms')" by (cases r)
    show ?thesis
    proof (cases revised)
      case True
      with Inr r have "revise cw doms x y = Inr (True, doms')" by simp
      from revise_True_domain [OF this]
      obtain keep where k: "domain_of doms' x = Inr keep" "keep \<noteq> []" by blast
      then have "length keep \<noteq> 0" by simp
      from "2.IH"(1) [OF Inr r [symmetric] True k(1) this _ "2.prems"(2)] inq
      show ?thesis using Inr r True k by simp
    next
      case False
      from "2.IH"(2) [OF Inr r [symmetric] False inq "2.prems"(2)]
      show ?thesis using Inr r False by simp
    qed
  qed
qed

lemma corner_overlaps_symmetric: "overlaps_symmetric corner_crossword"
proof -
  have ne: "corner_across \<noteq> corner_down"
    by (simp add: corner_across_def corner_down_def)
  have "overlaps corner_crossword (y, x) = map_option prod.swap (overlaps corner_crossword (x, y))" for x y
    using ne by (simp add: corner_crossword_def)
  then show ?thesis
    unfolding overlaps_symmetric_def by blast
qed

section \<open>Properties of \<open>order_domain_values\<close>\<close>

lemma odv_values_result:
  "odv_values dx ox on vs n = Inr n' \<Longrightarrow>
     n' = n + length (filter (\<lambda>v. dx ! ox \<noteq> v ! on) vs)"
proof (induction vs arbitrary: n)
  case Nil
  then show ?case by simp
next
  case (Cons v vs)
  from Cons.prems obtain cx cv where
    c: "char_at dx ox = Inr cx" "char_at v on = Inr cv"
    and r: "odv_values dx ox on vs (if cx \<noteq> cv then n + 1 else n) = Inr n'"
    by (auto split: sum.splits)
  from c have "cx = dx ! ox" "cv = v ! on"
    by (auto simp: char_at_def split: if_splits)
  with Cons.IH [OF r] show ?case by simp
qed

lemma odv_neighbors_result:
  "odv_neighbors cw doms var dx ns n = Inr n' \<Longrightarrow>
     n' = n + sum_list (map (\<lambda>neighbor.
                 case overlaps cw (var, neighbor) of
                   None \<Rightarrow> 0
                 | Some (ox, on) \<Rightarrow>
                     (case map_of doms neighbor of
                        None \<Rightarrow> 0
                      | Some ndom \<Rightarrow> length (filter (\<lambda>v. dx ! ox \<noteq> v ! on) ndom))) ns)"
proof (induction ns arbitrary: n)
  case Nil
  then show ?case by simp
next
  case (Cons neighbor ns)
  from Cons.prems obtain ox on ndom n1 where
    ov: "overlaps cw (var, neighbor) = Some (ox, on)"
    and nd: "map_of doms neighbor = Some ndom"
    and v: "odv_values dx ox on ndom n = Inr n1"
    and r: "odv_neighbors cw doms var dx ns n1 = Inr n'"
    by (auto simp: domain_of_def split: option.splits sum.splits)
  from odv_values_result [OF v] Cons.IH [OF r] ov nd show ?case by simp
qed

lemma odv_domain_result:
  "odv_domain cw doms var (filter (\<lambda>n. n \<notin> set (map fst a)) (neighbors cw var)) dxs c = Inr c' \<Longrightarrow>
     c' = c @ map (\<lambda>dx. (dx, eliminated cw doms a var dx)) dxs"
proof (induction dxs arbitrary: c)
  case Nil
  then show ?case by simp
next
  case (Cons dx dxs)
  from Cons.prems obtain n where
    n: "odv_neighbors cw doms var dx (filter (\<lambda>n. n \<notin> set (map fst a)) (neighbors cw var)) 0 = Inr n"
    and r: "odv_domain cw doms var (filter (\<lambda>n. n \<notin> set (map fst a)) (neighbors cw var)) dxs (c @ [(dx, n)]) = Inr c'"
    by (auto split: sum.splits)
  from odv_neighbors_result [OF n] have "n = eliminated cw doms a var dx"
    by (simp add: eliminated_def)
  with Cons.IH [OF r] show ?case by simp
qed

section \<open>Properties of \<open>select_unassigned_variable\<close>\<close>

text \<open>
  The slot returned has a domain of least size among the slots without a value: the
  tied slots are the first \<open>c\<close> of the list sorted by size, and all of them have the least
  size.
\<close>

lemma remaining_sizes_entries:
  "remaining_sizes doms vs = Inr r \<Longrightarrow> (v, n) \<in> set r \<Longrightarrow>
     v \<in> set vs \<and> (\<exists>ws. map_of doms v = Some ws \<and> n = length ws)"
proof (induction vs arbitrary: r)
  case Nil
  then show ?case by simp
next
  case (Cons u vs)
  from Cons.prems(1) obtain ws r' where
    u: "map_of doms u = Some ws" and r': "remaining_sizes doms vs = Inr r'"
    and r: "r = (u, length ws) # r'"
    by (auto simp: domain_of_def split: option.splits sum.splits)
  show ?case
  proof (cases "(v, n) = (u, length ws)")
    case True
    with u show ?thesis by simp
  next
    case False
    with Cons.prems(2) r have "(v, n) \<in> set r'" by auto
    from Cons.IH [OF r' this] show ?thesis by simp
  qed
qed

lemma filter_least_takeWhile:
  "sorted (map f xs) \<Longrightarrow> \<forall>e \<in> set xs. (k::nat) \<le> f e \<Longrightarrow>
     filter (\<lambda>e. f e = k) xs = takeWhile (\<lambda>e. f e = k) xs"
proof (induction xs)
  case Nil
  then show ?case by simp
next
  case (Cons x xs)
  show ?case
  proof (cases "f x = k")
    case True
    with Cons show ?thesis by simp
  next
    case False
    with Cons.prems have "k < f x" by (simp add: le_neq_implies_less)
    moreover from Cons.prems(1) have "\<forall>e \<in> set xs. f x \<le> f e" by simp
    ultimately have "\<forall>e \<in> set xs. f e \<noteq> k" by fastforce
    then have "filter (\<lambda>e. f e = k) xs = []" by (simp add: filter_empty_conv)
    with False show ?thesis by simp
  qed
qed

lemma tied_least:
  assumes "sorted (map f xs)" "xs = m # others"
    and "p \<in> set (take (length (filter (\<lambda>e. f e = f m) xs)) xs)"
  shows "f p = (f m :: nat)"
proof -
  from assms(1,2) have "\<forall>e \<in> set xs. f m \<le> f e" by auto
  from filter_least_takeWhile [OF assms(1) this]
  have "take (length (filter (\<lambda>e. f e = f m) xs)) xs = takeWhile (\<lambda>e. f e = f m) xs"
    by (simp add: takeWhile_eq_take [symmetric])
  with assms(3) show ?thesis
    by (auto dest: set_takeWhileD)
qed

lemma select_unassigned_variable_least_domain:
  assumes "select_unassigned_variable cw doms a = Inr var"
  shows "\<exists>ws. map_of doms var = Some ws \<and>
           (\<forall>v \<in> set (variables cw). v \<notin> set (map fst a) \<longrightarrow>
              (\<exists>ws'. map_of doms v = Some ws' \<and> length ws \<le> length ws'))"
proof -
  let ?un = "filter (\<lambda>v. v \<notin> set (map fst a)) (variables cw)"
  from assms obtain unsorted where
    u: "remaining_sizes doms ?un = Inr unsorted"
    by (auto simp: select_unassigned_variable_def split: sum.splits)
  define remaining where "remaining = sort_key snd unsorted"
  have srt: "sorted (map snd remaining)"
    unfolding remaining_def by (rule sorted_sort_key)
  have set_rem: "set remaining = set unsorted"
    unfolding remaining_def by simp
  from assms u obtain min_domain others where mo: "remaining = min_domain # others"
    by (auto simp: select_unassigned_variable_def remaining_def split: list.splits)
  define c where "c = length (filter (\<lambda>elem. snd elem = snd min_domain) remaining)"
  define tied where "tied = py_sort (\<lambda>p q. set (neighbors cw (fst p)) \<subset> set (neighbors cw (fst q))) (take c remaining)"
  have "var = fst min_domain \<or> (\<exists>t ts. tied = t # ts \<and> var = fst t)"
    using assms u mo unfolding select_unassigned_variable_def remaining_def [symmetric]
    by (auto simp: Let_def c_def tied_def remaining_def [symmetric] split: if_splits list.splits)
  then obtain p where p: "var = fst p" "p = min_domain \<or> p \<in> set (take c remaining)"
    unfolding tied_def
    by (metis list.set_intros(1) set_py_sort)
  from p(2) have least: "snd p = snd min_domain"
    using tied_least [OF srt mo] unfolding c_def by blast
  from p(2) mo have pin: "p \<in> set unsorted"
    using set_rem set_take_subset [of c remaining] by auto
  obtain n where pn: "p = (var, n)" using p(1) by (cases p) simp
  from remaining_sizes_entries [OF u] pin pn obtain ws where
    ws: "map_of doms var = Some ws" "n = length ws" by blast
  have "\<exists>ws'. map_of doms v = Some ws' \<and> length ws \<le> length ws'"
    if "v \<in> set (variables cw)" "v \<notin> set (map fst a)" for v
  proof -
    from that have "v \<in> set ?un" by simp
    with remaining_sizes_map [OF u] obtain q where q: "q \<in> set unsorted" "fst q = v"
      by (metis (no_types, lifting) imageE list.set_map)
    obtain k where qk: "q = (v, k)" using q(2) by (cases q) simp
    from remaining_sizes_entries [OF u] q(1) qk obtain ws' where
      ws': "map_of doms v = Some ws'" "k = length ws'" by blast
    from q(1) set_rem srt mo have "snd min_domain \<le> snd q" by auto
    with least pn qk ws ws' show ?thesis by simp
  qed
  with ws(1) show ?thesis by blast
qed


section \<open>Properties of \<open>consistent\<close> and \<open>backtrack\<close>\<close>

lemma consistent_inner_True:
  "consistent_inner cw a x x_value ns = Inr True \<Longrightarrow> n \<in> set ns \<Longrightarrow>
     \<exists>ox on n_value. overlaps cw (x, n) = Some (ox, on) \<and> map_of a n = Some n_value \<and>
        ox < length x_value \<and> on < length n_value \<and> compatible ox on x_value n_value"
proof (induction ns)
  case Nil
  then show ?case by simp
next
  case (Cons m ns)
  from Cons.prems(1) obtain ox on cx m_value cn where
    ov: "overlaps cw (x, m) = Some (ox, on)"
    and cx: "char_at x_value ox = Inr cx"
    and mv: "map_of a m = Some m_value"
    and cn: "char_at m_value on = Inr cn"
    and ok: "\<not> (cx \<noteq> cn \<or> x_value = m_value)"
    and r: "consistent_inner cw a x x_value ns = Inr True"
    by (auto split: option.splits sum.splits if_splits)
  from cx cn have b: "ox < length x_value" "cx = x_value ! ox" "on < length m_value" "cn = m_value ! on"
    by (auto simp: char_at_def split: if_splits)
  show ?case
  proof (cases "n = m")
    case True
    with ov mv b ok show ?thesis by (auto simp: compatible_def)
  next
    case False
    with Cons.prems(2) have "n \<in> set ns" by simp
    from Cons.IH [OF r this] show ?thesis .
  qed
qed

lemma consistent_outer_True:
  "consistent_outer cw a items = Inr True \<Longrightarrow> (x, x_value) \<in> set items \<Longrightarrow>
     consistent_inner cw a x x_value (filter (\<lambda>n. n \<in> set (map fst a)) (neighbors cw x)) = Inr True"
proof (induction items)
  case Nil
  then show ?case by simp
next
  case (Cons item items)
  obtain z z_value where item: "item = (z, z_value)" by (cases item)
  from Cons.prems(1) item have
    i: "consistent_inner cw a z z_value (filter (\<lambda>n. n \<in> set (map fst a)) (neighbors cw z)) = Inr True"
    and r: "consistent_outer cw a items = Inr True"
    by (auto split: sum.splits if_splits)
  show ?case
  proof (cases "(x, x_value) = item")
    case True
    with i item show ?thesis by simp
  next
    case False
    with Cons.prems(2) have "(x, x_value) \<in> set items" by simp
    from Cons.IH [OF r this] show ?thesis .
  qed
qed

lemma consistent_True:
  assumes "consistent cw a = Inr True"
  shows "satisfies_overlaps cw a"
  unfolding satisfies_overlaps_def
proof (intro allI impI)
  fix x y wx wy o_x o_y
  assume h: "map_of a x = Some wx \<and> map_of a y = Some wy \<and> y \<in> set (variables cw) \<and>
             overlaps cw (x, y) = Some (o_x, o_y)"
  then have "(x, wx) \<in> set a" by (simp add: map_of_SomeD)
  with assms have
    "consistent_inner cw a x wx (filter (\<lambda>n. n \<in> set (map fst a)) (neighbors cw x)) = Inr True"
    unfolding consistent_def by (rule consistent_outer_True)
  moreover from h have "y \<in> set (filter (\<lambda>n. n \<in> set (map fst a)) (neighbors cw x))"
    by (auto simp: neighbors_def dest: map_of_SomeD intro: rev_image_eqI)
  ultimately obtain ox on n_value where
    "overlaps cw (x, y) = Some (ox, on)" "map_of a y = Some n_value"
    "ox < length wx" "on < length n_value" "compatible ox on wx n_value"
    using consistent_inner_True by blast
  with h show "o_x < length wx \<and> o_y < length wy \<and> compatible o_x o_y wx wy" by simp
qed

lemma try_values_Some:
  "try_values rec cw a var vs = Inr (Some r) \<Longrightarrow>
     \<exists>v \<in> set vs. consistent cw (AList.update var v a) = Inr True \<and>
                  rec (AList.update var v a) = Inr (Some r)"
  by (induction vs) (auto split: sum.splits option.splits if_splits)

lemma backtrack_result:
  "backtrack cw doms a = Inr (Some r) \<Longrightarrow> consistent cw a = Inr True \<Longrightarrow> distinct (map fst a) \<Longrightarrow>
     assignment_complete cw r \<and> consistent cw r = Inr True \<and> distinct (map fst r)"
proof (induction cw doms a rule: backtrack.induct)
  case (1 cw doms a)
  show ?case
  proof (cases "assignment_complete cw a")
    case True
    with "1.prems" show ?thesis by (simp add: backtrack.simps)
  next
    case False
    with "1.prems"(1) obtain var vals where
      sel: "select_unassigned_variable cw doms a = Inr var"
      and odv: "order_domain_values cw doms var a = Inr vals"
      and tv: "try_values (\<lambda>new_assignment. backtrack cw doms new_assignment) cw a var vals = Inr (Some r)"
      by (auto simp: backtrack.simps [of cw doms a] split: sum.splits)
    from try_values_Some [OF tv] obtain v where
      v: "v \<in> set vals" "consistent cw (AList.update var v a) = Inr True"
         "backtrack cw doms (AList.update var v a) = Inr (Some r)"
      by blast
    have "distinct (map fst (AList.update var v a))"
      using "1.prems"(3) by (rule AList.distinct_update)
    from "1.IH" [OF False sel odv v(1) v(3) v(2) this] show ?thesis .
  qed
qed

lemma consistent_empty: "consistent cw [] = Inr True"
  by (simp add: consistent_def)

lemma enforce_node_consistency_node_consistent: "node_consistent (enforce_node_consistency doms)"
  by (auto simp: node_consistent_def enforce_node_consistency_def)

lemma enforce_node_consistency_keys: "map fst (enforce_node_consistency doms) = map fst doms"
  by (induction doms) (auto simp: enforce_node_consistency_def)

lemma set_update_subset: "set (AList.update x v al) \<subseteq> insert (x, v) (set al)"
  by (induction al) auto

lemma keys_update_present: "map_of al x = Some w \<Longrightarrow> map fst (AList.update x v al) = map fst al"
  by (induction al) (auto split: if_splits)

lemma revise_preserves:
  assumes "revise cw doms x y = Inr (revised, doms')"
  shows "map fst doms' = map fst doms" and "node_consistent doms \<Longrightarrow> node_consistent doms'"
proof -
  from assms obtain o_v1 o_v2 xdom keep where
    xd: "map_of doms x = Some xdom"
    and keep: "set keep = {dx \<in> set xdom. supported doms y o_v1 o_v2 dx}"
    and upd: "keep \<noteq> [] \<Longrightarrow> revised = (set keep \<noteq> set xdom) \<and> doms' = AList.update x keep doms"
    and same: "keep = [] \<Longrightarrow> \<not> revised \<and> doms' = doms"
    by (rule revise_Inr) blast
  show "map fst doms' = map fst doms"
    using upd same keys_update_present [OF xd] by (cases "keep = []") auto
  show "node_consistent doms'" if nc: "node_consistent doms"
  proof (cases "keep = []")
    case True
    with same nc show ?thesis by simp
  next
    case False
    with upd have d': "doms' = AList.update x keep doms" by simp
    from xd have "(x, xdom) \<in> set doms" by (rule map_of_SomeD)
    with nc have "\<forall>w \<in> set xdom. length w = var_length x"
      by (auto simp: node_consistent_def)
    with keep have "\<forall>w \<in> set keep. length w = var_length x" by simp
    with nc set_update_subset [of x keep doms] show ?thesis
      unfolding d' node_consistent_def by blast
  qed
qed

lemma ac3_reaches_preserves:
  assumes "ac3_reaches cw s t"
  shows "map fst (fst t) = map fst (fst s) \<and> (node_consistent (fst s) \<longrightarrow> node_consistent (fst t))"
  using assms
proof (induction rule: ac3_reaches.induct)
  case start
  then show ?case by simp
next
  case (revised doms x y queue doms' xdom)
  with revise_preserves [OF revised.hyps(2)] show ?case by simp
next
  case (unrevised doms x y queue doms')
  with revise_preserves [OF unrevised.hyps(2)] show ?case by simp
qed

lemma ac3_preserves:
  assumes "ac3 cw doms arcs = Inr (ok, doms')"
  shows "map fst doms' = map fst doms" and "node_consistent doms \<Longrightarrow> node_consistent doms'"
  using ac3_reaches_preserves [OF ac3_loop_reaches [OF assms [unfolded ac3_def]]] by simp_all

lemma has_word_length:
  "node_consistent doms \<Longrightarrow> has_word doms x w \<Longrightarrow> length w = var_length x"
  by (auto simp: node_consistent_def has_word_def split: option.splits dest!: map_of_SomeD)

lemma map_of_keys: "x \<in> set (map fst al) \<Longrightarrow> \<exists>v. map_of al x = Some v"
  by (induction al) auto

lemma drawn_from_value:
  "drawn_from cw doms a \<Longrightarrow> map_of a x = Some w \<Longrightarrow> has_word doms x w"
  by (auto simp: drawn_from_def dest!: map_of_SomeD)

lemma consistent_inner_total:
  assumes "overlaps_in_range cw" "x \<in> set (variables cw)" "length x_value = var_length x"
    and "\<forall>n \<in> set ns. n \<in> set (variables cw) \<and> overlaps cw (x, n) \<noteq> None \<and>
           (\<exists>nv. map_of a n = Some nv \<and> length nv = var_length n)"
  shows "\<exists>b. consistent_inner cw a x x_value ns = Inr b"
  using assms(4)
proof (induction ns)
  case Nil
  then show ?case by auto
next
  case (Cons n ns)
  then obtain ox on nv where
    nin: "n \<in> set (variables cw)"
    and ov: "overlaps cw (x, n) = Some (ox, on)" and nv: "map_of a n = Some nv" "length nv = var_length n"
    by auto
  from assms(1,2) nin ov have "ox < var_length x" "on < var_length n"
    by (auto simp: overlaps_in_range_def)
  with assms(3) nv have c: "char_at x_value ox = Inr (x_value ! ox)" "char_at nv on = Inr (nv ! on)"
    by (simp_all add: char_at_def)
  from Cons obtain b where "consistent_inner cw a x x_value ns = Inr b" by auto
  with ov nv c show ?case by auto
qed

lemma consistent_inner_False:
  "consistent_inner cw a x x_value ns = Inr False \<Longrightarrow>
     \<exists>n \<in> set ns. \<exists>ox on nv. overlaps cw (x, n) = Some (ox, on) \<and> map_of a n = Some nv \<and>
          \<not> compatible ox on x_value nv"
proof (induction ns)
  case Nil
  then show ?case by simp
next
  case (Cons n ns)
  from Cons.prems obtain ox on cx nv cn where
    ov: "overlaps cw (x, n) = Some (ox, on)"
    and cx: "char_at x_value ox = Inr cx"
    and nv: "map_of a n = Some nv"
    and cn: "char_at nv on = Inr cn"
    and r: "(cx \<noteq> cn \<or> x_value = nv) \<or> consistent_inner cw a x x_value ns = Inr False"
    by (auto split: option.splits sum.splits if_splits)
  from cx cn have b: "cx = x_value ! ox" "cn = nv ! on"
    by (auto simp: char_at_def split: if_splits)
  from r show ?case
  proof
    assume "cx \<noteq> cn \<or> x_value = nv"
    with b have "\<not> compatible ox on x_value nv" by (auto simp: compatible_def)
    with ov nv show ?thesis by auto
  next
    assume "consistent_inner cw a x x_value ns = Inr False"
    from Cons.IH [OF this] show ?thesis by auto
  qed
qed

lemma consistent_outer_total:
  assumes "\<forall>(x, x_value) \<in> set items.
             \<exists>b. consistent_inner cw a x x_value (filter (\<lambda>n. n \<in> set (map fst a)) (neighbors cw x)) = Inr b"
  shows "\<exists>b. consistent_outer cw a items = Inr b"
  using assms by (induction items) (auto split: sum.splits)

lemma consistent_outer_False:
  "consistent_outer cw a items = Inr False \<Longrightarrow>
     \<exists>(x, x_value) \<in> set items.
        consistent_inner cw a x x_value (filter (\<lambda>n. n \<in> set (map fst a)) (neighbors cw x)) = Inr False"
  by (induction items) (auto split: sum.splits if_splits)

lemma consistent_total:
  assumes "search_ready cw doms" "drawn_from cw doms a"
  shows "\<exists>b. consistent cw a = Inr b"
  unfolding consistent_def
proof (rule consistent_outer_total, clarify)
  fix x x_value
  assume xin: "(x, x_value) \<in> set a"
  with assms have len: "length x_value = var_length x"
    by (auto simp: search_ready_def drawn_from_def has_word_length)
  from xin assms(2) have xv: "x \<in> set (variables cw)"
    by (auto simp: drawn_from_def intro: rev_image_eqI)
  have "n \<in> set (variables cw) \<and> overlaps cw (x, n) \<noteq> None \<and>
        (\<exists>nv. map_of a n = Some nv \<and> length nv = var_length n)"
    if "n \<in> set (filter (\<lambda>n. n \<in> set (map fst a)) (neighbors cw x))" for n
  proof -
    from that have ov: "overlaps cw (x, n) \<noteq> None" and k: "n \<in> set (map fst a)"
      and nin: "n \<in> set (variables cw)"
      by (auto simp: neighbors_def)
    from map_of_keys [OF k] obtain nv where nv: "map_of a n = Some nv" by blast
    with assms have "length nv = var_length n"
      using drawn_from_value has_word_length unfolding search_ready_def by blast
    with ov nv nin show ?thesis by simp
  qed
  then show "\<exists>b. consistent_inner cw a x x_value (filter (\<lambda>n. n \<in> set (map fst a)) (neighbors cw x)) = Inr b"
    using consistent_inner_total [of cw x x_value _ a] assms(1) len xv
    unfolding search_ready_def by blast
qed

lemma consistent_satisfied:
  assumes "search_ready cw doms" "drawn_from cw doms a"
    and "\<forall>x y wx wy o_x o_y.
           map_of a x = Some wx \<and> map_of a y = Some wy \<and> overlaps cw (x, y) = Some (o_x, o_y)
           \<longrightarrow> compatible o_x o_y wx wy"
  shows "consistent cw a = Inr True"
proof -
  from consistent_total [OF assms(1,2)] obtain b where b: "consistent cw a = Inr b" by blast
  have "b"
  proof (rule ccontr)
    assume "\<not> b"
    with b have "consistent_outer cw a a = Inr False" by (simp add: consistent_def)
    from consistent_outer_False [OF this] obtain x x_value where
      xin: "(x, x_value) \<in> set a"
      and f: "consistent_inner cw a x x_value (filter (\<lambda>n. n \<in> set (map fst a)) (neighbors cw x)) = Inr False"
      by blast
    from consistent_inner_False [OF f] obtain n ox on nv where
      v: "overlaps cw (x, n) = Some (ox, on)" "map_of a n = Some nv" "\<not> compatible ox on x_value nv"
      by blast
    from assms(2) xin have "map_of a x = Some x_value"
      by (simp add: drawn_from_def)
    with assms(3) v show False by blast
  qed
  with b show ?thesis by simp
qed

lemma odv_values_total:
  "(vs \<noteq> [] \<longrightarrow> ox < length dx) \<Longrightarrow> \<forall>v \<in> set vs. on < length v \<Longrightarrow>
     \<exists>n'. odv_values dx ox on vs n = Inr n'"
  by (induction vs arbitrary: n) (auto simp: char_at_def)

lemma odv_neighbors_total:
  assumes "\<forall>neighbor \<in> set ns. \<exists>ox on ndom. overlaps cw (var, neighbor) = Some (ox, on) \<and>
             map_of doms neighbor = Some ndom \<and> ox < length dx \<and> (\<forall>v \<in> set ndom. on < length v)"
  shows "\<exists>n'. odv_neighbors cw doms var dx ns n = Inr n'"
  using assms
proof (induction ns arbitrary: n)
  case Nil
  then show ?case by simp
next
  case (Cons neighbor ns)
  then obtain ox on ndom where
    h: "overlaps cw (var, neighbor) = Some (ox, on)" "map_of doms neighbor = Some ndom"
       "ox < length dx" "\<forall>v \<in> set ndom. on < length v"
    by auto
  from odv_values_total [of ndom ox dx on n] h obtain n1 where
    n1: "odv_values dx ox on ndom n = Inr n1" by auto
  from Cons obtain n' where "odv_neighbors cw doms var dx ns n1 = Inr n'" by fastforce
  with h n1 show ?case by (simp add: domain_of_def)
qed

lemma odv_domain_total:
  assumes "\<forall>dx \<in> set dxs. \<exists>n. odv_neighbors cw doms var dx ns 0 = Inr n"
  shows "\<exists>c'. odv_domain cw doms var ns dxs c = Inr c'"
  using assms by (induction dxs arbitrary: c) auto

lemma order_domain_values_total:
  assumes "search_ready cw doms" "var \<in> set (variables cw)"
  shows "\<exists>vals vdom. order_domain_values cw doms var a = Inr vals \<and>
           map_of doms var = Some vdom \<and> set vals = set vdom"
proof -
  from assms have "var \<in> set (map fst doms)" by (auto simp: search_ready_def)
  from map_of_keys [OF this] obtain vdom where vd: "map_of doms var = Some vdom" by blast
  let ?ns = "filter (\<lambda>n. n \<notin> set (map fst a)) (neighbors cw var)"
  have "\<exists>n. odv_neighbors cw doms var dx ?ns 0 = Inr n" if dx: "dx \<in> set vdom" for dx
  proof (rule odv_neighbors_total, rule ballI)
    fix neighbor
    assume "neighbor \<in> set ?ns"
    then have nv: "neighbor \<in> set (variables cw)" and "overlaps cw (var, neighbor) \<noteq> None"
      by (auto simp: neighbors_def)
    then obtain ox on where ov: "overlaps cw (var, neighbor) = Some (ox, on)" by auto
    from nv assms(1) have "neighbor \<in> set (map fst doms)" by (auto simp: search_ready_def)
    from map_of_keys [OF this] obtain ndom where nd: "map_of doms neighbor = Some ndom" by blast
    from assms ov nv have r: "ox < var_length var" "on < var_length neighbor"
      by (auto simp: search_ready_def overlaps_in_range_def)
    from assms(1) vd dx have "length dx = var_length var"
      using has_word_length [of doms var dx] by (simp add: search_ready_def has_word_def)
    moreover from assms(1) nd have "\<forall>v \<in> set ndom. length v = var_length neighbor"
      using has_word_length [of doms neighbor] by (simp add: search_ready_def has_word_def)
    ultimately show "\<exists>ox on ndom. overlaps cw (var, neighbor) = Some (ox, on) \<and>
             map_of doms neighbor = Some ndom \<and> ox < length dx \<and> (\<forall>v \<in> set ndom. on < length v)"
      using ov nd r by simp
  qed
  then obtain c where c: "odv_domain cw doms var ?ns vdom [] = Inr c"
    using odv_domain_total [of vdom cw doms var ?ns "[]"] by blast
  from odv_domain_result [OF c] have "map fst c = vdom" by (simp add: comp_def)
  then have "set (map fst (sort_key snd c)) = set vdom"
    by (metis set_map set_sort)
  with vd c show ?thesis
    by (simp add: order_domain_values_def domain_of_def)
qed

lemma remaining_sizes_total:
  "set vs \<subseteq> set (map fst doms) \<Longrightarrow> \<exists>r. remaining_sizes doms vs = Inr r"
proof (induction vs)
  case Nil
  then show ?case by simp
next
  case (Cons v vs)
  then have "v \<in> set (map fst doms)" by simp
  from map_of_keys [OF this] obtain ws where "map_of doms v = Some ws" by blast
  moreover from Cons obtain r where "remaining_sizes doms vs = Inr r" by auto
  ultimately show ?case by (simp add: domain_of_def)
qed

lemma py_sort_nonempty: "xs \<noteq> [] \<Longrightarrow> py_sort lt xs \<noteq> []"
  using set_py_sort [of lt xs] by (metis set_empty)

lemma select_unassigned_variable_total:
  assumes "set (variables cw) \<subseteq> set (map fst doms)"
    and "set (map fst a) \<subseteq> set (variables cw)" "\<not> assignment_complete cw a"
  shows "\<exists>var. select_unassigned_variable cw doms a = Inr var"
proof -
  let ?un = "filter (\<lambda>v. v \<notin> set (map fst a)) (variables cw)"
  from assms(2,3) have ne: "?un \<noteq> []"
    by (auto simp: assignment_complete_def filter_empty_conv)
  from assms(1) have "set ?un \<subseteq> set (map fst doms)" by auto
  from remaining_sizes_total [OF this] obtain unsorted where
    u: "remaining_sizes doms ?un = Inr unsorted" by blast
  from remaining_sizes_map [OF u] ne have "unsorted \<noteq> []" by auto
  then have "sort_key snd unsorted \<noteq> []"
    by (metis length_0_conv length_sort)
  then obtain min_domain others where mo: "sort_key snd unsorted = min_domain # others"
    by (cases "sort_key snd unsorted") auto
  define c where "c = length (filter (\<lambda>elem. snd elem = snd min_domain) (min_domain # others))"
  define tied where "tied = py_sort (\<lambda>p q. set (neighbors cw (fst p)) \<subset> set (neighbors cw (fst q)))
               (take c (min_domain # others))"
  have "c \<noteq> 0" by (simp add: c_def)
  then have "take c (min_domain # others) \<noteq> []" by (cases c) auto
  then have "tied \<noteq> []"
    unfolding tied_def by (rule py_sort_nonempty)
  then obtain t ts where t: "tied = t # ts" by (cases tied) auto
  have "select_unassigned_variable cw doms a = (if c = 1 then Inr (fst min_domain) else Inr (fst t))"
    unfolding select_unassigned_variable_def u
    by (simp add: mo Let_def c_def [symmetric] tied_def [symmetric] t del: take_Suc_Cons filter.simps)
  then show ?thesis by auto
qed

lemma try_values_total:
  "\<forall>v \<in> set vs. (\<exists>b. consistent cw (AList.update var v a) = Inr b) \<and>
                 (\<exists>res. rec (AList.update var v a) = Inr res) \<Longrightarrow>
   \<exists>res. try_values rec cw a var vs = Inr res"
  by (induction vs) (auto split: option.splits)

lemma try_values_finds:
  "\<forall>v \<in> set vs. (\<exists>b. consistent cw (AList.update var v a) = Inr b) \<and>
                 (\<exists>res. rec (AList.update var v a) = Inr res) \<Longrightarrow>
   \<exists>v \<in> set vs. consistent cw (AList.update var v a) = Inr True \<and>
                 (\<exists>r. rec (AList.update var v a) = Inr (Some r)) \<Longrightarrow>
   \<exists>r. try_values rec cw a var vs = Inr (Some r)"
proof (induction vs)
  case Nil
  then show ?case by simp
next
  case (Cons v vs)
  from Cons.prems(1) obtain b res where
    b: "consistent cw (AList.update var v a) = Inr b" and res: "rec (AList.update var v a) = Inr res"
    by auto
  show ?case
  proof (cases "b \<and> res \<noteq> None")
    case True
    with b res show ?thesis by auto
  next
    case False
    with b res Cons.prems(2) have
      "\<exists>v \<in> set vs. consistent cw (AList.update var v a) = Inr True \<and>
                     (\<exists>r. rec (AList.update var v a) = Inr (Some r))"
      by auto
    with Cons.IH Cons.prems(1) obtain r where "try_values rec cw a var vs = Inr (Some r)"
      by auto
    with b res False show ?thesis by auto
  qed
qed

lemma drawn_from_update:
  assumes "drawn_from cw doms a" "var \<in> set (variables cw)" "has_word doms var v"
  shows "drawn_from cw doms (AList.update var v a)"
proof -
  have "distinct (map fst (AList.update var v a))"
    using assms(1) by (simp add: drawn_from_def AList.distinct_update)
  moreover have "set (map fst (AList.update var v a)) \<subseteq> set (variables cw)"
    using assms(1,2) AList.dom_update [of var v a] by (auto simp: drawn_from_def)
  moreover have "\<forall>(x, w) \<in> set (AList.update var v a). has_word doms x w"
    using assms(1,3) set_update_subset [of var v a] by (auto simp: drawn_from_def)
  ultimately show ?thesis by (simp add: drawn_from_def)
qed

lemma backtrack_complete:
  "search_ready cw doms \<Longrightarrow> drawn_from cw doms a \<Longrightarrow>
     (\<exists>res. backtrack cw doms a = Inr res) \<and>
     ((\<exists>sol. solution cw doms sol \<and> (\<forall>x w. map_of a x = Some w \<longrightarrow> map_of sol x = Some w))
        \<longrightarrow> (\<exists>r. backtrack cw doms a = Inr (Some r)))"
proof (induction cw doms a rule: backtrack.induct)
  case (1 cw doms a)
  note ready = "1.prems"(1) and drawn = "1.prems"(2)
  show ?case
  proof (cases "assignment_complete cw a")
    case True
    then show ?thesis by (simp add: backtrack.simps)
  next
    case False
    from ready drawn have "\<exists>var. select_unassigned_variable cw doms a = Inr var"
      using select_unassigned_variable_total [of cw doms a] False
      by (simp add: search_ready_def drawn_from_def)
    then obtain var where sel: "select_unassigned_variable cw doms a = Inr var" by blast
    from select_unassigned_variable_unassigned [OF sel] have
      var: "var \<in> set (variables cw)" "var \<notin> set (map fst a)" by simp_all
    from order_domain_values_total [OF ready var(1)] obtain vals vdom where
      odv: "order_domain_values cw doms var a = Inr vals"
      and vd: "map_of doms var = Some vdom" and sv: "set vals = set vdom"
      by blast
    have bt: "backtrack cw doms a = try_values (\<lambda>new_assignment. backtrack cw doms new_assignment) cw a var vals"
      using False sel odv by (simp add: backtrack.simps [of cw doms a])
    have hw: "has_word doms var v" if "v \<in> set vals" for v
      using that vd sv by (simp add: has_word_def)
    have dr: "drawn_from cw doms (AList.update var v a)" if "v \<in> set vals" for v
      using drawn_from_update [OF drawn var(1) hw [OF that]] .
    have ih: "(\<exists>res. backtrack cw doms (AList.update var v a) = Inr res) \<and>
              ((\<exists>sol. solution cw doms sol \<and>
                   (\<forall>x w. map_of (AList.update var v a) x = Some w \<longrightarrow> map_of sol x = Some w))
                \<longrightarrow> (\<exists>r. backtrack cw doms (AList.update var v a) = Inr (Some r)))"
      if "v \<in> set vals" for v
      using "1.IH" [OF False sel odv that ready dr [OF that]] .
    have tot: "\<forall>v \<in> set vals. (\<exists>b. consistent cw (AList.update var v a) = Inr b) \<and>
                 (\<exists>res. backtrack cw doms (AList.update var v a) = Inr res)"
      using consistent_total [OF ready dr] ih by blast
    have part1: "\<exists>res. backtrack cw doms a = Inr res"
      unfolding bt using try_values_total [OF tot] .
    have part2: "\<exists>r. backtrack cw doms a = Inr (Some r)"
      if s: "solution cw doms sol" and sub: "\<forall>x w. map_of a x = Some w \<longrightarrow> map_of sol x = Some w"
      for sol
    proof -
      from s var(1) have "var \<in> set (map fst sol)"
        by (simp add: solution_def complete_and_consistent_def)
      from map_of_keys [OF this] obtain w where w: "map_of sol var = Some w" by blast
      then have "(var, w) \<in> set sol" by (rule map_of_SomeD)
      with s have "has_word doms var w" by (auto simp: solution_def)
      with vd sv have win: "w \<in> set vals" by (simp add: has_word_def)
      have sub': "\<forall>x w'. map_of (AList.update var w a) x = Some w' \<longrightarrow> map_of sol x = Some w'"
        using sub w by (auto simp: AList.update_conv')
      have "\<forall>x y wx wy o_x o_y.
              map_of (AList.update var w a) x = Some wx \<and> map_of (AList.update var w a) y = Some wy \<and>
              overlaps cw (x, y) = Some (o_x, o_y) \<longrightarrow> compatible o_x o_y wx wy"
        using s sub' unfolding solution_def complete_and_consistent_def compatible_def by blast
      from consistent_satisfied [OF ready dr [OF win] this]
      have c: "consistent cw (AList.update var w a) = Inr True" .
      from ih [OF win] s sub' obtain r where "backtrack cw doms (AList.update var w a) = Inr (Some r)"
        by blast
      with c win have "\<exists>v \<in> set vals. consistent cw (AList.update var v a) = Inr True \<and>
                 (\<exists>r. backtrack cw doms (AList.update var v a) = Inr (Some r))"
        by blast
      from try_values_finds [OF tot this] show ?thesis unfolding bt .
    qed
    from part1 part2 show ?thesis by blast
  qed
qed

lemma drawn_from_empty: "drawn_from cw doms []"
  by (simp add: drawn_from_def)

lemma solution_overlaps_in_range:
  assumes "node_consistent doms" "solution cw doms sol"
  shows "overlaps_in_range cw"
  unfolding overlaps_in_range_def
proof (intro ballI allI impI)
  fix x y o_x o_y
  assume x: "x \<in> set (variables cw)" and y: "y \<in> set (variables cw)"
    and ov: "overlaps cw (x, y) = Some (o_x, o_y)"
  from x y assms(2) have "x \<in> set (map fst sol)" "y \<in> set (map fst sol)"
    by (simp_all add: solution_def complete_and_consistent_def)
  then obtain wx wy where w: "map_of sol x = Some wx" "map_of sol y = Some wy"
    using map_of_keys by metis
  then have "(x, wx) \<in> set sol" "(y, wy) \<in> set sol" by (simp_all add: map_of_SomeD)
  with assms(2) have "has_word doms x wx" "has_word doms y wy"
    by (auto simp: solution_def)
  with assms(1) have "length wx = var_length x" "length wy = var_length y"
    by (simp_all add: has_word_length)
  moreover from assms(2) w ov have "o_x < length wx \<and> o_y < length wy"
    unfolding solution_def complete_and_consistent_def by blast
  ultimately show "o_x < var_length x \<and> o_y < var_length y" by simp
qed

lemma scenario_solution:
  "solution scenario_crossword
     [(scenario_across, [''cat'']), (scenario_down, [''ten''])]
     [(scenario_across, ''cat''), (scenario_down, ''ten'')]"
proof -
  have ne: "scenario_across \<noteq> scenario_down"
    by (simp add: scenario_across_def scenario_down_def)
  have c: "o_x < length wx \<and> o_y < length wy \<and> compatible o_x o_y wx wy"
    if "map_of [(scenario_across, ''cat''), (scenario_down, ''ten'')] x = Some wx
        \<and> map_of [(scenario_across, ''cat''), (scenario_down, ''ten'')] y = Some wy
        \<and> overlaps scenario_crossword (x, y) = Some (o_x, o_y)" for x y wx wy o_x o_y
    using that ne
    by (auto simp: scenario_crossword_def compatible_def split: if_splits)
  have k: "set (map fst [(scenario_across, ''cat''), (scenario_down, ''ten'')])
             = set (variables scenario_crossword)"
    by (simp add: scenario_crossword_def)
  have d: "distinct (map fst [(scenario_across, ''cat''), (scenario_down, ''ten'')])"
    using ne by simp
  have w: "\<forall>(x, w) \<in> set [(scenario_across, ''cat''), (scenario_down, ''ten'')].
             has_word [(scenario_across, [''cat'']), (scenario_down, [''ten''])] x w"
    using ne by (simp add: has_word_def)
  show ?thesis
    unfolding solution_def complete_and_consistent_def compatible_def [symmetric] using k d w c by blast
qed

lemma order_domain_values_set:
  assumes "order_domain_values cw doms var a = Inr vals"
  shows "\<exists>vdom. map_of doms var = Some vdom \<and> set vals = set vdom"
proof -
  from assms obtain vdom c where
    vd: "map_of doms var = Some vdom"
    and c: "odv_domain cw doms var (filter (\<lambda>n. n \<notin> set (map fst a)) (neighbors cw var)) vdom [] = Inr c"
    and vals: "vals = map fst (sort_key snd c)"
    by (auto simp: order_domain_values_def domain_of_def split: option.splits sum.splits)
  from odv_domain_result [OF c] have "map fst c = vdom" by (simp add: comp_def)
  then have "set vals = set vdom"
    unfolding vals by (metis set_map set_sort)
  with vd show ?thesis by simp
qed

lemma backtrack_drawn_from:
  "backtrack cw doms a = Inr (Some r) \<Longrightarrow> drawn_from cw doms a \<Longrightarrow> drawn_from cw doms r"
proof (induction cw doms a rule: backtrack.induct)
  case (1 cw doms a)
  show ?case
  proof (cases "assignment_complete cw a")
    case True
    with "1.prems" show ?thesis by (simp add: backtrack.simps)
  next
    case False
    with "1.prems"(1) obtain var vals where
      sel: "select_unassigned_variable cw doms a = Inr var"
      and odv: "order_domain_values cw doms var a = Inr vals"
      and tv: "try_values (\<lambda>new_assignment. backtrack cw doms new_assignment) cw a var vals = Inr (Some r)"
      by (auto simp: backtrack.simps [of cw doms a] split: sum.splits)
    from try_values_Some [OF tv] obtain v where
      v: "v \<in> set vals" "backtrack cw doms (AList.update var v a) = Inr (Some r)"
      by blast
    from select_unassigned_variable_unassigned [OF sel] have var: "var \<in> set (variables cw)"
      by simp
    from order_domain_values_set [OF odv] v(1) have "has_word doms var v"
      by (auto simp: has_word_def)
    from drawn_from_update [OF "1.prems"(2) var this]
    have "drawn_from cw doms (AList.update var v a)" .
    from "1.IH" [OF False sel odv v(1) v(2) this] show ?thesis .
  qed
qed

lemma consistent_complete_and_consistent:
  assumes c: "assignment_complete cw r" and s: "consistent cw r = Inr True"
    and d: "distinct (map fst r)"
  shows "complete_and_consistent cw r"
proof -
  from c have keys: "set (map fst r) = set (variables cw)"
    by (simp add: assignment_complete_def)
  have "o_x < length wx \<and> o_y < length wy \<and> wx ! o_x = wy ! o_y \<and> wx \<noteq> wy"
    if h: "map_of r x = Some wx \<and> map_of r y = Some wy \<and> overlaps cw (x, y) = Some (o_x, o_y)"
    for x y wx wy o_x o_y
  proof -
    from h have "y \<in> set (map fst r)"
      by (metis map_of_SomeD set_zip_leftD zip_map_fst_snd)
    with keys have "y \<in> set (variables cw)" by simp
    with consistent_True [OF s] h show ?thesis
      unfolding satisfies_overlaps_def compatible_def by blast
  qed
  with keys d show ?thesis
    unfolding complete_and_consistent_def by blast
qed

section \<open>Properties of \<open>backtrack_h\<close>\<close>

lemma extends_refl: "extends st st"
  by (simp add: extends_def)

lemma extends_trans: "extends st st' \<Longrightarrow> extends st' st'' \<Longrightarrow> extends st st''"
  by (auto simp: extends_def)

lemma extends_copy:
  "extends st (st\<lparr>dicts := dicts st @ [a]\<rparr>\<lparr>dicts := (dicts st @ [a])[length (dicts st) := b]\<rparr>)"
  by (simp add: extends_def)

lemma extends_nth: "extends st st' \<Longrightarrow> k < length (dicts st) \<Longrightarrow> dicts st' ! k = dicts st ! k"
  by (auto simp: extends_def nth_append)

lemma extends_length: "extends st st' \<Longrightarrow> length (dicts st) \<le> length (dicts st')"
  by (auto simp: extends_def)

lemma try_values_h_Cons:
  "try_values_h fuel cw st addr var (v # vs) =
     (case consistent cw (AList.update var v (dicts st ! addr)) of
        Inl e \<Rightarrow> Some (Inl e)
      | Inr ok \<Rightarrow>
          if ok then
            (case backtrack_h fuel cw
                    (st\<lparr>dicts := dicts st @ [AList.update var v (dicts st ! addr)]\<rparr>)
                    (length (dicts st)) of
               None \<Rightarrow> None
             | Some (Inl e) \<Rightarrow> Some (Inl e)
             | Some (Inr (None, st3)) \<Rightarrow> try_values_h fuel cw st3 addr var vs
             | Some (Inr (Some result, st3)) \<Rightarrow> Some (Inr (Some result, st3)))
          else try_values_h fuel cw
                 (st\<lparr>dicts := dicts st @ [AList.update var v (dicts st ! addr)]\<rparr>) addr var vs)"
  by (simp add: Let_def cong: sum.case_cong option.case_cong if_cong)

declare try_values_h.simps(2) [simp del]

lemma extends_append: "extends st (st\<lparr>dicts := dicts st @ [a]\<rparr>)"
  by (simp add: extends_def)

lemma try_values_h_frame:
  assumes IH: "\<And>st addr res st'. backtrack_h fuel cw st addr = Some (Inr (res, st')) \<Longrightarrow> extends st st'"
  shows "try_values_h fuel cw st addr var vs = Some (Inr (res, st')) \<Longrightarrow> extends st st'"
proof (induction vs arbitrary: st)
  case Nil
  then show ?case by (simp add: extends_refl)
next
  case (Cons v vs)
  let ?st2 = "st\<lparr>dicts := dicts st @ [AList.update var v (dicts st ! addr)]\<rparr>"
  have e2: "extends st ?st2" by (rule extends_append)
  from Cons.prems obtain ok where
    c: "consistent cw (AList.update var v (dicts st ! addr)) = Inr ok"
    by (auto simp: try_values_h_Cons split: sum.splits)
  show ?case
  proof (cases ok)
    case False
    with Cons.prems c have "try_values_h fuel cw ?st2 addr var vs = Some (Inr (res, st'))"
      by (simp add: try_values_h_Cons)
    from Cons.IH [OF this] e2 show ?thesis by (blast intro: extends_trans)
  next
    case True
    with Cons.prems c obtain r3 st3 where
      b: "backtrack_h fuel cw ?st2 (length (dicts st)) = Some (Inr (r3, st3))"
      by (auto simp: try_values_h_Cons split: option.splits sum.splits)
    from IH [OF b] e2 have e3: "extends st st3" by (blast intro: extends_trans)
    show ?thesis
    proof (cases r3)
      case None
      with Cons.prems c True b have "try_values_h fuel cw st3 addr var vs = Some (Inr (res, st'))"
        by (simp add: try_values_h_Cons)
      from Cons.IH [OF this] e3 show ?thesis by (blast intro: extends_trans)
    next
      case (Some result)
      with Cons.prems c True b have "st' = st3"
        by (simp add: try_values_h_Cons)
      with e3 show ?thesis by simp
    qed
  qed
qed

lemma backtrack_h_frame:
  "backtrack_h fuel cw st addr = Some (Inr (res, st')) \<Longrightarrow> extends st st'"
proof (induction fuel arbitrary: st addr res st')
  case 0
  then show ?case by simp
next
  case (Suc fuel)
  show ?case
  proof (cases "assignment_complete cw (dicts st ! addr)")
    case True
    with Suc.prems show ?thesis by (simp add: extends_refl)
  next
    case False
    with Suc.prems obtain var vals where
      "try_values_h fuel cw st addr var vals = Some (Inr (res, st'))"
      by (auto split: sum.splits)
    then show ?thesis
      using try_values_h_frame [of fuel cw] Suc.IH by blast
  qed
qed

lemma returned_simps [simp]:
  "returned (Inl e) = Inl e"
  "returned (Inr (None, st')) = Inr None"
  "returned (Inr (Some r, st')) = Inr (Some (dicts st' ! r))"
  by (simp_all add: returned_def)

lemma try_values_h_refines:
  assumes IH: "\<And>st addr out. backtrack_h fuel cw st addr = Some out \<Longrightarrow> addr < length (dicts st) \<Longrightarrow>
                 backtrack cw (domains_of st) (dicts st ! addr) = returned out"
  shows "try_values_h fuel cw st addr var vs = Some out \<Longrightarrow> addr < length (dicts st) \<Longrightarrow>
           try_values (backtrack cw (domains_of st)) cw (dicts st ! addr) var vs = returned out"
proof (induction vs arbitrary: st)
  case Nil
  then show ?case by auto
next
  case (Cons v vs)
  let ?a = "dicts st ! addr"
  let ?st2 = "st\<lparr>dicts := dicts st @ [AList.update var v ?a]\<rparr>"
  have e2: "extends st ?st2" by (rule extends_append)
  have a2: "dicts ?st2 ! addr = ?a" "addr < length (dicts ?st2)" "domains_of ?st2 = domains_of st"
    using Cons.prems(2) by (simp_all add: nth_append)
  show ?case
  proof (cases "consistent cw (AList.update var v ?a)")
    case (Inl e)
    with Cons.prems show ?thesis by (auto simp: try_values_h_Cons)
  next
    case (Inr ok)
    show ?thesis
    proof (cases ok)
      case False
      with Cons.prems Inr have "try_values_h fuel cw ?st2 addr var vs = Some out"
        by (simp add: try_values_h_Cons)
      from Cons.IH [OF this a2(2)] Inr False Cons.prems(2) show ?thesis
        by (simp add: nth_append)
    next
      case True
      with Cons.prems Inr obtain out3 where
        b: "backtrack_h fuel cw ?st2 (length (dicts st)) = Some out3"
        by (auto simp: try_values_h_Cons split: option.splits)
      from IH [OF b] have r3: "backtrack cw (domains_of st) (AList.update var v ?a) = returned out3"
        by simp
      show ?thesis
      proof (cases out3)
        case (Inl e)
        with Cons.prems \<open>consistent cw (AList.update var v ?a) = Inr ok\<close> True b r3 show ?thesis
          by (auto simp: try_values_h_Cons)
      next
        case (Inr p)
        obtain r st3 where p: "p = (r, st3)" by (cases p)
        from backtrack_h_frame [OF b [unfolded \<open>out3 = Inr p\<close> p]] e2
        have e3: "extends st st3" by (blast intro: extends_trans)
        show ?thesis
        proof (cases r)
          case None
          with Cons.prems \<open>consistent cw (AList.update var v ?a) = Inr ok\<close> True b Inr p
          have tv: "try_values_h fuel cw st3 addr var vs = Some out"
            by (simp add: try_values_h_Cons)
          from e3 Cons.prems(2) have a3: "dicts st3 ! addr = ?a" "addr < length (dicts st3)"
            "domains_of st3 = domains_of st"
            using extends_nth extends_length by (auto simp: extends_def)
          from Cons.IH [OF tv a3(2)] r3 Inr p None
            \<open>consistent cw (AList.update var v ?a) = Inr ok\<close> True
          show ?thesis by (simp add: a3)
        next
          case (Some result)
          with Cons.prems \<open>consistent cw (AList.update var v ?a) = Inr ok\<close> True b Inr p
          have "out = Inr (Some result, st3)"
            by (simp add: try_values_h_Cons)
          with r3 Inr p Some \<open>consistent cw (AList.update var v ?a) = Inr ok\<close> True
          show ?thesis by simp
        qed
      qed
    qed
  qed
qed

lemma backtrack_h_refines:
  "backtrack_h fuel cw st addr = Some out \<Longrightarrow> addr < length (dicts st) \<Longrightarrow>
     backtrack cw (domains_of st) (dicts st ! addr) = returned out"
proof (induction fuel arbitrary: st addr out)
  case 0
  then show ?case by simp
next
  case (Suc fuel)
  show ?case
  proof (cases "assignment_complete cw (dicts st ! addr)")
    case True
    with Suc.prems show ?thesis by (auto simp: backtrack.simps)
  next
    case False
    show ?thesis
    proof (cases "select_unassigned_variable cw (domains_of st) (dicts st ! addr)")
      case (Inl e)
      with Suc.prems False show ?thesis
        by (auto simp: backtrack.simps [of cw "domains_of st" "dicts st ! addr"])
    next
      case (Inr var)
      show ?thesis
      proof (cases "order_domain_values cw (domains_of st) var (dicts st ! addr)")
        case (Inl e)
        with Suc.prems False \<open>select_unassigned_variable cw (domains_of st) (dicts st ! addr) = Inr var\<close>
        show ?thesis
          by (auto simp: backtrack.simps [of cw "domains_of st" "dicts st ! addr"])
      next
        case (Inr vals)
        with Suc.prems False \<open>select_unassigned_variable cw (domains_of st) (dicts st ! addr) = Inr var\<close>
        have tv: "try_values_h fuel cw st addr var vals = Some out" by simp
        from try_values_h_refines [of fuel cw, OF Suc.IH tv Suc.prems(2)]
        show ?thesis
          using False Inr \<open>select_unassigned_variable cw (domains_of st) (dicts st ! addr) = Inr var\<close>
          by (simp add: backtrack.simps [of cw "domains_of st" "dicts st ! addr"])
      qed
    qed
  qed
qed

lemma unassigned_update:
  assumes "var \<in> set (variables cw)" "var \<notin> set (map fst a)"
  shows "Suc (unassigned cw (AList.update var v a)) = unassigned cw a"
proof -
  let ?U = "set (variables cw) - set (map fst a)"
  have "set (map fst (AList.update var v a)) = insert var (set (map fst a))"
    using AList.dom_update [of var v a] by simp
  then have eq: "set (variables cw) - set (map fst (AList.update var v a)) = ?U - {var}"
    by auto
  have "var \<in> ?U" using assms by simp
  moreover have "finite ?U" by simp
  ultimately have "Suc (card (?U - {var})) = card ?U"
    by (rule card_Suc_Diff1 [OF _ _, rotated])
  then show ?thesis
    unfolding unassigned_def eq .
qed

lemma try_values_h_returns:
  assumes IH: "\<And>st addr. addr < length (dicts st) \<Longrightarrow> unassigned cw (dicts st ! addr) < fuel \<Longrightarrow>
                 backtrack_h fuel cw st addr \<noteq> None"
    and var: "var \<in> set (variables cw)"
  shows "addr < length (dicts st) \<Longrightarrow> var \<notin> set (map fst (dicts st ! addr)) \<Longrightarrow>
           unassigned cw (dicts st ! addr) \<le> fuel \<Longrightarrow>
           try_values_h fuel cw st addr var vs \<noteq> None"
proof (induction vs arbitrary: st)
  case Nil
  then show ?case by simp
next
  case (Cons v vs)
  let ?a = "dicts st ! addr"
  let ?st2 = "st\<lparr>dicts := dicts st @ [AList.update var v ?a]\<rparr>"
  have e2: "extends st ?st2" by (rule extends_append)
  have same: "dicts st'' ! addr = ?a \<and> addr < length (dicts st'')" if "extends st st''" for st''
    using that Cons.prems(1) extends_nth extends_length by (metis less_le_trans)
  from unassigned_update [OF var Cons.prems(2), of v] Cons.prems(3)
  have "unassigned cw (AList.update var v ?a) < fuel" by simp
  then have b: "backtrack_h fuel cw ?st2 (length (dicts st)) \<noteq> None"
    using IH [of "length (dicts st)" ?st2] by simp
  have rec: "try_values_h fuel cw st'' addr var vs \<noteq> None" if "extends st st''" for st''
    using Cons.IH [of st''] same [OF that] Cons.prems(2,3) by simp
  show ?case
  proof (cases "consistent cw (AList.update var v ?a)")
    case (Inl e)
    then show ?thesis by (simp add: try_values_h_Cons)
  next
    case (Inr ok)
    show ?thesis
    proof (cases ok)
      case False
      with Inr rec [OF e2] show ?thesis by (simp add: try_values_h_Cons)
    next
      case True
      from b obtain out3 where o: "backtrack_h fuel cw ?st2 (length (dicts st)) = Some out3"
        by auto
      show ?thesis
      proof (cases out3)
        case (Inl e)
        with \<open>consistent cw (AList.update var v ?a) = Inr ok\<close> True o show ?thesis
          by (simp add: try_values_h_Cons)
      next
        case (Inr p)
        obtain r st3 where p: "p = (r, st3)" by (cases p)
        from backtrack_h_frame [OF o [unfolded Inr p]] e2
        have "extends st st3" by (blast intro: extends_trans)
        from rec [OF this] \<open>consistent cw (AList.update var v ?a) = Inr ok\<close> True o Inr p
        show ?thesis
          by (cases r) (simp_all add: try_values_h_Cons)
      qed
    qed
  qed
qed

lemma backtrack_h_returns:
  "addr < length (dicts st) \<Longrightarrow> unassigned cw (dicts st ! addr) < fuel \<Longrightarrow>
     backtrack_h fuel cw st addr \<noteq> None"
proof (induction fuel arbitrary: st addr)
  case 0
  then show ?case by simp
next
  case (Suc fuel)
  show ?case
  proof (cases "assignment_complete cw (dicts st ! addr)")
    case True
    then show ?thesis by simp
  next
    case False
    show ?thesis
    proof (cases "select_unassigned_variable cw (domains_of st) (dicts st ! addr)")
      case (Inl e)
      with False show ?thesis by simp
    next
      case (Inr var)
      from select_unassigned_variable_unassigned [OF Inr] have
        var: "var \<in> set (variables cw)" "var \<notin> set (map fst (dicts st ! addr))" by simp_all
      from Suc.prems(2) have le: "unassigned cw (dicts st ! addr) \<le> fuel" by simp
      have "try_values_h fuel cw st addr var vals \<noteq> None" for vals
        using try_values_h_returns [OF Suc.IH var(1) Suc.prems(1) var(2) le]
        by simp
      with False Inr show ?thesis
        by (simp split: sum.splits)
    qed
  qed
qed

section \<open>An assignment returned by \<open>solve\<close> is complete and consistent\<close>

text \<open>
  C1. An assignment returned by \<open>solve()\<close> is complete and consistent: it has exactly one
  entry for every slot of the crossword, and any two of its slots with a defined overlap
  hold words that agree at the overlap indices (which lie within the words) and are not
  the same word. So is every assignment that \<open>backtrack\<close> returns when it is called on a
  consistent assignment, as it is by \<open>solve()\<close> and by itself: an extension is passed on
  only after \<open>consistent\<close> has accepted it.
\<close>

theorem solve_result_complete_and_consistent:
  "(solve cw doms0 = Inr (Some r) \<longrightarrow> complete_and_consistent cw r) \<and>
   (backtrack cw doms a = Inr (Some r) \<and> consistent cw a = Inr True \<and> distinct (map fst a)
      \<longrightarrow> complete_and_consistent cw r)"
proof -
  have b: "complete_and_consistent cw r"
    if "backtrack cw d a' = Inr (Some r)" "consistent cw a' = Inr True" "distinct (map fst a')"
    for d a'
    using backtrack_result [OF that] consistent_complete_and_consistent by blast
  have "complete_and_consistent cw r" if "solve cw doms0 = Inr (Some r)"
  proof -
    from that obtain ok doms' where "backtrack cw doms' [] = Inr (Some r)"
      by (auto simp: solve_def split: sum.splits)
    from b [OF this consistent_empty] show ?thesis by simp
  qed
  with b show ?thesis by blast
qed

theorem solve_result_complete_and_consistent_witness:
  "solve scenario_crossword (init_domains scenario_crossword)
     = Inr (Some [(scenario_across, ''cat''), (scenario_down, ''ten'')])
   \<and> backtrack scenario_crossword [(scenario_across, [''cat'']), (scenario_down, [''ten''])]
        [(scenario_across, ''cat'')]
     = Inr (Some [(scenario_across, ''cat''), (scenario_down, ''ten'')])
   \<and> consistent scenario_crossword [(scenario_across, ''cat'')] = Inr True
   \<and> distinct (map fst [(scenario_across, ''cat'')])
   \<and> complete_and_consistent scenario_crossword [(scenario_across, ''cat''), (scenario_down, ''ten'')]"
proof -
  have h1: "solve scenario_crossword (init_domains scenario_crossword)
             = Inr (Some [(scenario_across, ''cat''), (scenario_down, ''ten'')])"
    by code_simp
  have h2: "backtrack scenario_crossword [(scenario_across, [''cat'']), (scenario_down, [''ten''])]
              [(scenario_across, ''cat'')]
             = Inr (Some [(scenario_across, ''cat''), (scenario_down, ''ten'')])"
    by code_simp
  have h3: "consistent scenario_crossword [(scenario_across, ''cat'')] = Inr True"
    by code_simp
  have h4: "distinct (map fst [(scenario_across, ''cat'')])"
    by simp
  from solve_result_complete_and_consistent
         [of scenario_crossword "init_domains scenario_crossword"
             "[(scenario_across, ''cat''), (scenario_down, ''ten'')]"
             "[(scenario_across, [''cat'']), (scenario_down, [''ten''])]"
             "[(scenario_across, ''cat'')]"] h1
  have "complete_and_consistent scenario_crossword [(scenario_across, ''cat''), (scenario_down, ''ten'')]"
    by blast
  with h1 h2 h3 h4 show ?thesis by blast
qed

section \<open>The search finds an assignment when one exists\<close>

text \<open>
  C2. Let the store hold a domain for every slot, and let \<open>ac3\<close> after node consistency
  return with the store \<open>doms\<close>. If \<open>doms\<close> has a solution, then \<open>backtrack\<close> from the
  empty assignment, which is what \<open>solve()\<close> returns, is an assignment and not \<open>None\<close>,
  and that assignment is a solution in \<open>doms\<close>.
\<close>

theorem backtrack_finds_assignment_when_one_exists:
  assumes "set (variables cw) \<subseteq> set (map fst doms0)"
    and "ac3 cw (enforce_node_consistency doms0) None = Inr (ok, doms)"
    and "solution cw doms sol"
  shows "solve cw doms0 = backtrack cw doms [] \<and>
         (\<exists>r. backtrack cw doms [] = Inr (Some r) \<and> solution cw doms r)"
proof -
  from ac3_preserves [OF assms(2)] have
    k: "map fst doms = map fst doms0" and nc: "node_consistent doms"
    by (simp_all add: enforce_node_consistency_keys enforce_node_consistency_node_consistent)
  from solution_overlaps_in_range [OF nc assms(3)] k nc assms(1)
  have "search_ready cw doms" by (simp add: search_ready_def)
  from backtrack_complete [OF this drawn_from_empty] assms(3)
  obtain r where r: "backtrack cw doms [] = Inr (Some r)" by auto
  from backtrack_result [OF r consistent_empty] have "complete_and_consistent cw r"
    using consistent_complete_and_consistent by simp
  moreover from backtrack_drawn_from [OF r drawn_from_empty]
  have "\<forall>(x, w) \<in> set r. has_word doms x w" by (simp add: drawn_from_def)
  ultimately have "solution cw doms r" by (simp add: solution_def)
  moreover have "solve cw doms0 = backtrack cw doms []"
    using assms(2) by (simp add: solve_def)
  ultimately show ?thesis using r by simp
qed

theorem backtrack_finds_assignment_when_one_exists_witness:
  "set (variables scenario_crossword) \<subseteq> set (map fst (init_domains scenario_crossword))
   \<and> ac3 scenario_crossword (enforce_node_consistency (init_domains scenario_crossword)) None
       = Inr (True, [(scenario_across, [''cat'']), (scenario_down, [''ten''])])
   \<and> solution scenario_crossword
        [(scenario_across, [''cat'']), (scenario_down, [''ten''])]
        [(scenario_across, ''cat''), (scenario_down, ''ten'')]
   \<and> (\<exists>r. backtrack scenario_crossword [(scenario_across, [''cat'']), (scenario_down, [''ten''])] []
            = Inr (Some r)
          \<and> solution scenario_crossword [(scenario_across, [''cat'']), (scenario_down, [''ten''])] r)"
proof -
  have h2: "set (variables scenario_crossword) \<subseteq> set (map fst (init_domains scenario_crossword))"
    by (simp add: init_domains_def comp_def)
  have h3: "ac3 scenario_crossword (enforce_node_consistency (init_domains scenario_crossword)) None
              = Inr (True, [(scenario_across, [''cat'']), (scenario_down, [''ten''])])"
    by code_simp
  note c = backtrack_finds_assignment_when_one_exists
             [OF h2 h3 scenario_solution]
  show ?thesis
    by (intro conjI h2 h3 scenario_solution conjunct2 [OF c])
qed

section \<open>\<open>revise\<close> keeps a domain in which no word has a partner\<close>

text \<open>
  C3. The claim: after \<open>revise(x, y)\<close> the domain of \<open>x\<close> is exactly the set of its former
  words that have a partner in the domain of \<open>y\<close>, empty when none has one, and the
  result is \<open>True\<close> exactly when a word was removed. The code assigns the set \<open>keep\<close> of
  the words with a partner only under \<open>if keep:\<close>. On the corner, with \<open>AB\<close> for the
  across slot and \<open>CD\<close> for the down slot, \<open>AB\<close> has no partner: \<open>revise\<close> returns
  \<open>False\<close> and leaves \<open>AB\<close> in the domain.
\<close>

theorem revise_keeps_domain_without_partner:
  "revise corner_crossword [(corner_across, [''AB'']), (corner_down, [''CD''])]
       corner_across corner_down
     = Inr (False, [(corner_across, [''AB'']), (corner_down, [''CD''])])
   \<and> overlaps corner_crossword (corner_across, corner_down) = Some (0, 0)
   \<and> \<not> supported [(corner_across, [''AB'']), (corner_down, [''CD''])] corner_down 0 0 ''AB''"
  by code_simp

section \<open>\<open>ac3\<close> returns success on a store that is not arc consistent\<close>

text \<open>
  C4. The claim: when \<open>ac3()\<close> returns success, every word left in a domain has a partner
  in the domain of every neighbour. On the corner, after node consistency both slots
  have the domain \<open>AB\<close>, \<open>CD\<close>; a partner of \<open>AB\<close> would be another word that starts
  with \<open>A\<close>. \<open>ac3\<close> returns \<open>True\<close> and leaves both domains as they are.
\<close>

theorem ac3_success_without_arc_consistency:
  "ac3 corner_crossword (enforce_node_consistency (init_domains corner_crossword)) None
     = Inr (True, [(corner_across, [''AB'', ''CD'']), (corner_down, [''AB'', ''CD''])])
   \<and> neighbors corner_crossword corner_across = [corner_down]
   \<and> overlaps corner_crossword (corner_across, corner_down) = Some (0, 0)
   \<and> \<not> supported [(corner_across, [''AB'', ''CD'']), (corner_down, [''AB'', ''CD''])]
          corner_down 0 0 ''AB''"
  by code_simp

section \<open>\<open>select_unassigned_variable\<close> breaks a tie towards the fewest neighbours\<close>

text \<open>
  C5. The claim: the slot returned has a domain of least size among the slots without a
  value, and among the slots tied at that size it has the most neighbours. The code
  sorts the tied slots by their sets of neighbours, in ascending order of inclusion. On
  the four slots above, after \<open>ac3\<close>, \<open>tie_top\<close> and \<open>tie_foot\<close> are tied with one word
  each; \<open>tie_foot\<close> has two neighbours and \<open>tie_top\<close> has one, and \<open>tie_top\<close> is returned,
  whichever of the two the set of slots yields first.
  (That the slot returned has a domain of least size is
  \<open>select_unassigned_variable_least_domain\<close> above.)
\<close>

theorem select_unassigned_variable_takes_fewest_neighbors:
  "select_unassigned_variable tie_crossword tie_domains [] = Inr tie_top
   \<and> select_unassigned_variable (tie_crossword\<lparr>variables := rev (variables tie_crossword)\<rparr>)
         tie_domains [] = Inr tie_top
   \<and> map_of tie_domains tie_top = Some [''AB'']
   \<and> map_of tie_domains tie_foot = Some [''EFG'']
   \<and> neighbors tie_crossword tie_top = [tie_stem]
   \<and> neighbors tie_crossword tie_foot = [tie_stem, tie_post]"
  by code_simp

section \<open>\<open>ac3\<close> removes only words without a partner\<close>

text \<open>
  C6. At every iteration that a run of \<open>ac3\<close> reaches (from any store and any initial
  arcs), a word that is in a domain before the call \<open>revise(x, y)\<close> and not after it is a
  word of \<open>x\<close>, the overlap of \<open>x\<close> and \<open>y\<close> is defined, and at that moment no word of the
  domain of \<open>y\<close> is compatible with it. Hence a word with a partner in the domain of
  every neighbour is never removed.
\<close>

theorem ac3_removes_only_words_without_partner:
  assumes "ac3_reaches cw (doms0, initial_arcs cw doms0 arcs) (doms, (x, y) # queue)"
    and "revise cw doms x y = Inr (revised, doms')"
    and "has_word doms z w" and "\<not> has_word doms' z w"
  shows "z = x \<and>
         (\<exists>o_v1 o_v2 ydom. overlaps cw (x, y) = Some (o_v1, o_v2) \<and> map_of doms y = Some ydom \<and>
            o_v1 < length w \<and> (\<forall>wy \<in> set ydom. o_v2 < length wy \<and> \<not> compatible o_v1 o_v2 w wy))"
proof -
  from assms(2) obtain o_v1 o_v2 xdom keep where
    ov: "overlaps cw (x, y) = Some (o_v1, o_v2)"
    and xd: "map_of doms x = Some xdom"
    and xb: "\<forall>dx \<in> set xdom. o_v1 < length dx"
    and yd: "xdom \<noteq> [] \<Longrightarrow> \<exists>ydom. map_of doms y = Some ydom \<and> (\<forall>dy \<in> set ydom. o_v2 < length dy)"
    and keep: "set keep = {dx \<in> set xdom. supported doms y o_v1 o_v2 dx}"
    and upd: "keep \<noteq> [] \<Longrightarrow> revised = (set keep \<noteq> set xdom) \<and> doms' = AList.update x keep doms"
    and same: "keep = [] \<Longrightarrow> \<not> revised \<and> doms' = doms"
    by (rule revise_Inr) blast
  from same assms(3,4) have ne: "keep \<noteq> []" by auto
  with upd have d': "doms' = AList.update x keep doms" by simp
  from assms(3,4) have zx: "z = x" and wk: "w \<notin> set keep"
    unfolding d' has_word_update by (auto split: if_splits)
  from assms(3) zx xd have wx: "w \<in> set xdom" by (simp add: has_word_def)
  then have "xdom \<noteq> []" by auto
  from yd [OF this] obtain ydom where
    y: "map_of doms y = Some ydom" "\<forall>dy \<in> set ydom. o_v2 < length dy"
    by blast
  from wk wx keep have "\<not> supported doms y o_v1 o_v2 w" by simp
  with y have "\<forall>wy \<in> set ydom. \<not> compatible o_v1 o_v2 w wy" by (simp add: supported_def)
  with zx ov y wx xb show ?thesis by auto
qed

theorem ac3_removes_only_words_without_partner_witness:
  "ac3_reaches scenario_crossword (scenario_domains, initial_arcs scenario_crossword scenario_domains None)
       (scenario_domains, [(scenario_across, scenario_down), (scenario_down, scenario_across)])
   \<and> revise scenario_crossword scenario_domains scenario_across scenario_down
       = Inr (True, [(scenario_across, [''cat'']), (scenario_down, [''cat'', ''ten'', ''ace''])])
   \<and> has_word scenario_domains scenario_across ''ace''
   \<and> \<not> has_word [(scenario_across, [''cat'']), (scenario_down, [''cat'', ''ten'', ''ace''])] scenario_across ''ace''
   \<and> (\<exists>o_v1 o_v2 ydom.
         overlaps scenario_crossword (scenario_across, scenario_down) = Some (o_v1, o_v2) \<and>
         map_of scenario_domains scenario_down = Some ydom \<and> o_v1 < length ''ace'' \<and>
         (\<forall>wy \<in> set ydom. o_v2 < length wy \<and> \<not> compatible o_v1 o_v2 ''ace'' wy))"
proof -
  have q: "initial_arcs scenario_crossword scenario_domains None
             = [(scenario_across, scenario_down), (scenario_down, scenario_across)]"
    by code_simp
  have h1: "ac3_reaches scenario_crossword
              (scenario_domains, initial_arcs scenario_crossword scenario_domains None)
              (scenario_domains, (scenario_across, scenario_down) # [(scenario_down, scenario_across)])"
    unfolding q by (rule ac3_reaches.start)
  have h2: "revise scenario_crossword scenario_domains scenario_across scenario_down
              = Inr (True, [(scenario_across, [''cat'']), (scenario_down, [''cat'', ''ten'', ''ace''])])"
    by code_simp
  have h3: "has_word scenario_domains scenario_across ''ace''"
    by code_simp
  have h4: "\<not> has_word [(scenario_across, [''cat'']), (scenario_down, [''cat'', ''ten'', ''ace''])]
                scenario_across ''ace''"
    by code_simp
  note c = ac3_removes_only_words_without_partner [OF h1 h2 h3 h4]
  show ?thesis
    by (intro conjI h1 h2 h3 h4 conjunct2 [OF c])
qed

section \<open>\<open>ac3\<close> terminates\<close>

text \<open>
  C7. On every store and every initial arc list (the default one included) the loop of
  \<open>ac3\<close> terminates: the input is in the domain of the recursion, and the call either
  raises or returns \<open>True\<close> with the queue empty. It never returns failure: \<open>revise\<close> returns \<open>True\<close> only after it has assigned a non-empty set, so the
  test \<open>len(self.domains[x]) == 0\<close> that guards \<open>return False\<close> does not hold there, and
  the statement that a domain is empty whenever \<open>ac3\<close> returns failure holds for lack of
  such a return.
\<close>

theorem ac3_terminates_and_never_returns_failure:
  "ac3_loop_dom (cw, doms, initial_arcs cw doms arcs)
   \<and> ac3 cw doms arcs \<noteq> Inr (False, d)
   \<and> ((\<exists>e. ac3 cw doms arcs = Inl e) \<or>
        (\<exists>d'. ac3 cw doms arcs = Inr (True, d') \<and>
              ac3_reaches cw (doms, initial_arcs cw doms arcs) (d', [])))"
proof -
  have "(\<exists>e. ac3 cw doms arcs = Inl e) \<or>
        (\<exists>d'. ac3 cw doms arcs = Inr (True, d') \<and>
              ac3_reaches cw (doms, initial_arcs cw doms arcs) (d', []))"
  proof (cases "ac3 cw doms arcs")
    case (Inl e)
    then show ?thesis by simp
  next
    case (Inr r)
    obtain ok d' where r: "r = (ok, d')" by (cases r)
    with Inr ac3_loop_never_False [of cw doms "initial_arcs cw doms arcs" d'] have ok
      by (cases ok) (simp_all add: ac3_def)
    moreover from Inr r have "ac3_reaches cw (doms, initial_arcs cw doms arcs) (d', [])"
      using ac3_loop_reaches [of cw doms "initial_arcs cw doms arcs" ok d'] by (simp add: ac3_def)
    ultimately show ?thesis using Inr r by simp
  qed
  then show ?thesis
    using ac3_loop_total ac3_loop_never_False by (simp add: ac3_def)
qed

section \<open>\<open>order_domain_values\<close> orders the domain by eliminated words\<close>

text \<open>
  C8. When \<open>order_domain_values(var, assignment)\<close> returns, its result holds exactly the
  words of the domain of \<open>var\<close>, each as often as the domain does, in ascending order of
  the number of words that the choice eliminates from the domains of the neighbours
  without a value.
\<close>

theorem order_domain_values_sorted_by_eliminated:
  assumes "order_domain_values cw doms var a = Inr vals"
  shows "(\<exists>vdom. map_of doms var = Some vdom \<and> mset vals = mset vdom)
         \<and> sorted (map (eliminated cw doms a var) vals)"
proof -
  from assms obtain vdom c where
    vd: "map_of doms var = Some vdom"
    and c: "odv_domain cw doms var (filter (\<lambda>n. n \<notin> set (map fst a)) (neighbors cw var)) vdom [] = Inr c"
    and vals: "vals = map fst (sort_key snd c)"
    by (auto simp: order_domain_values_def domain_of_def split: option.splits sum.splits)
  from odv_domain_result [OF c] have c_eq: "c = map (\<lambda>dx. (dx, eliminated cw doms a var dx)) vdom"
    by simp
  have snd_c: "snd p = eliminated cw doms a var (fst p)" if "p \<in> set c" for p
    using that c_eq by auto
  have "mset vals = mset (map fst c)"
    unfolding vals by simp
  also have "map fst c = vdom"
    unfolding c_eq by (simp add: comp_def)
  finally have m: "mset vals = mset vdom" .
  have "map (eliminated cw doms a var) vals = map snd (sort_key snd c)"
    unfolding vals using snd_c by (simp add: comp_def)
  moreover have "sorted (map snd (sort_key snd c))"
    by (rule sorted_sort_key)
  ultimately show ?thesis using vd m by simp
qed

theorem order_domain_values_sorted_by_eliminated_witness:
  "order_domain_values scenario_crossword
       [(scenario_across, [''ten'', ''cat'', ''ace'']), (scenario_down, [''cat'', ''ten'', ''ace''])]
       scenario_across []
     = Inr [''cat'', ''ten'', ''ace'']
   \<and> mset [''cat'', ''ten'', ''ace''] = mset [''ten'', ''cat'', ''ace'']
   \<and> map (eliminated scenario_crossword
              [(scenario_across, [''ten'', ''cat'', ''ace'']), (scenario_down, [''cat'', ''ten'', ''ace''])]
              [] scenario_across) [''cat'', ''ten'', ''ace''] = [2, 3, 3]"
proof -
  let ?D = "[(scenario_across, [''ten'', ''cat'', ''ace'']), (scenario_down, [''cat'', ''ten'', ''ace''])]"
  have h: "order_domain_values scenario_crossword ?D scenario_across [] = Inr [''cat'', ''ten'', ''ace'']"
    by code_simp
  have e: "map (eliminated scenario_crossword ?D [] scenario_across) [''cat'', ''ten'', ''ace''] = [2, 3, 3]"
    by code_simp
  have d: "map_of ?D scenario_across = Some [''ten'', ''cat'', ''ace'']"
    by simp
  from order_domain_values_sorted_by_eliminated [OF h] d
  have "mset [''cat'', ''ten'', ''ace''] = mset [''ten'', ''cat'', ''ace'']"
    by auto
  with h e show ?thesis by blast
qed

section \<open>\<open>backtrack\<close> leaves the store and the caller's assignment as they were\<close>

text \<open>
  C9. A call of \<open>backtrack\<close> on the assignment at address \<open>addr\<close>, with a depth bound above
  the number of slots without a value, is not cut off; it computes what \<open>backtrack\<close> on
  values computes; and when it returns (an assignment or \<open>None\<close>), \<open>self.domains\<close> is
  what it was and every assignment object that existed before the call, the caller's
  among them, holds what it held: the extensions were written into new objects.
\<close>

theorem backtrack_leaves_store_and_assignments:
  assumes "addr < length (dicts st)" and "unassigned cw (dicts st ! addr) < fuel"
  shows "\<exists>out. backtrack_h fuel cw st addr = Some out \<and>
           backtrack cw (domains_of st) (dicts st ! addr) = returned out \<and>
           (\<forall>res st'. out = Inr (res, st') \<longrightarrow>
              domains_of st' = domains_of st \<and>
              (\<forall>k < length (dicts st). dicts st' ! k = dicts st ! k))"
proof -
  from backtrack_h_returns [OF assms] obtain out where
    o: "backtrack_h fuel cw st addr = Some out" by auto
  have "domains_of st' = domains_of st \<and> (\<forall>k < length (dicts st). dicts st' ! k = dicts st ! k)"
    if "out = Inr (res, st')" for res st'
    using backtrack_h_frame [OF o [unfolded that]] extends_nth by (auto simp: extends_def)
  with o backtrack_h_refines [OF o assms(1)] show ?thesis by blast
qed

theorem backtrack_leaves_store_and_assignments_witness:
  "0 < length (dicts \<lparr>domains_of = [(scenario_across, [''cat'']), (scenario_down, [''ten''])], dicts = [[]]\<rparr>)
   \<and> unassigned scenario_crossword [] < 3
   \<and> backtrack_h 3 scenario_crossword
        \<lparr>domains_of = [(scenario_across, [''cat'']), (scenario_down, [''ten''])], dicts = [[]]\<rparr> 0
      = Some (Inr (Some 2,
          \<lparr>domains_of = [(scenario_across, [''cat'']), (scenario_down, [''ten''])],
           dicts = [[], [(scenario_across, ''cat'')],
                    [(scenario_across, ''cat''), (scenario_down, ''ten'')]]\<rparr>))
   \<and> backtrack scenario_crossword [(scenario_across, [''cat'']), (scenario_down, [''ten''])] []
      = Inr (Some [(scenario_across, ''cat''), (scenario_down, ''ten'')])"
proof -
  let ?st = "\<lparr>domains_of = [(scenario_across, [''cat'']), (scenario_down, [''ten''])], dicts = [[]]\<rparr>"
  have h1: "0 < length (dicts ?st)" by simp
  have u: "unassigned scenario_crossword [] < 3"
    by (simp add: unassigned_def scenario_crossword_def card_insert_if)
  then have h2: "unassigned scenario_crossword (dicts ?st ! 0) < 3" by simp
  have e: "backtrack_h 3 scenario_crossword ?st 0
      = Some (Inr (Some 2,
          \<lparr>domains_of = [(scenario_across, [''cat'']), (scenario_down, [''ten''])],
           dicts = [[], [(scenario_across, ''cat'')],
                    [(scenario_across, ''cat''), (scenario_down, ''ten'')]]\<rparr>))"
    by code_simp
  from backtrack_leaves_store_and_assignments [OF h1 h2] e
  have "backtrack scenario_crossword [(scenario_across, [''cat'']), (scenario_down, [''ten''])] []
      = Inr (Some [(scenario_across, ''cat''), (scenario_down, ''ten'')])"
    by simp
  with h1 u e show ?thesis by blast
qed

section \<open>The unguarded subscript of \<open>revise\<close>\<close>

text \<open>
  C10. \<open>revise(x, y)\<close> raises \<open>TypeError\<close> exactly when the overlap of \<open>x\<close> and \<open>y\<close> is
  undefined. With a symmetric overlap map and the default arcs, every arc on the queue
  at every iteration reached has a defined overlap, and \<open>ac3()\<close> does not raise
  \<open>TypeError\<close>. With a list of arcs that holds a pair without overlap, \<open>ac3\<close> does not
  return: it raises \<open>TypeError\<close> when that pair comes first, and in general it raises at
  that pair or earlier.
\<close>

theorem revise_needs_overlap_ac3_default_arcs_have_it:
  "(overlaps cw (x, y) = None \<longrightarrow> revise cw doms x y = Inl TypeError)
   \<and> (revise cw doms x y = Inl TypeError \<longrightarrow> overlaps cw (x, y) = None)
   \<and> (overlaps_symmetric cw \<longrightarrow>
        (\<forall>d q u v. ac3_reaches cw (doms, initial_arcs cw doms None) (d, q) \<and> (u, v) \<in> set q
            \<longrightarrow> overlaps cw (u, v) \<noteq> None)
        \<and> ac3 cw doms None \<noteq> Inl TypeError)
   \<and> (overlaps cw (x, y) = None \<longrightarrow> ac3 cw doms (Some ((x, y) # arcs)) = Inl TypeError)
   \<and> ((x, y) \<in> set arcs \<and> overlaps cw (x, y) = None \<longrightarrow> (\<exists>e. ac3 cw doms (Some arcs) = Inl e))"
proof -
  have init: "\<forall>(u, v) \<in> set (initial_arcs cw doms None). overlaps cw (u, v) \<noteq> None"
    using initial_arcs_overlap by blast
  have a: "overlaps_symmetric cw \<Longrightarrow> ac3_reaches cw (doms, initial_arcs cw doms None) (d, q) \<Longrightarrow>
           (u, v) \<in> set q \<Longrightarrow> overlaps cw (u, v) \<noteq> None" for d q u v
    using ac3_reaches_overlap [of cw "(doms, initial_arcs cw doms None)" "(d, q)"] init by auto
  have b: "overlaps_symmetric cw \<Longrightarrow> ac3 cw doms None \<noteq> Inl TypeError"
    unfolding ac3_def using ac3_loop_not_TypeError init by blast
  have c: "(x, y) \<in> set arcs \<Longrightarrow> overlaps cw (x, y) = None \<Longrightarrow> \<exists>e. ac3 cw doms (Some arcs) = Inl e"
    unfolding ac3_def initial_arcs_def using ac3_loop_faults_on_arc_without_overlap by simp
  have d: "ac3 cw doms (Some ((x, y) # arcs)) = Inl TypeError" if "overlaps cw (x, y) = None"
  proof -
    from that have "revise cw doms x y = Inl TypeError" by (simp add: revise_TypeError)
    then show ?thesis by (simp add: ac3_def initial_arcs_def)
  qed
  show ?thesis
    using a b c d revise_TypeError [of cw doms x y] by blast
qed

theorem revise_needs_overlap_ac3_default_arcs_have_it_witness:
  "overlaps corner_crossword (corner_across, corner_across) = None
   \<and> revise corner_crossword [(corner_across, [''AB'', ''CD'']), (corner_down, [''AB'', ''CD''])]
        corner_across corner_across = Inl TypeError
   \<and> overlaps_symmetric corner_crossword
   \<and> overlaps corner_crossword (corner_down, corner_across) \<noteq> None
   \<and> ac3 corner_crossword [(corner_across, [''AB'', ''CD'']), (corner_down, [''AB'', ''CD''])] None
        \<noteq> Inl TypeError
   \<and> ac3 corner_crossword [(corner_across, [''AB'', ''CD'']), (corner_down, [''AB'', ''CD''])]
        (Some [(corner_across, corner_across), (corner_across, corner_down)]) = Inl TypeError
   \<and> (\<exists>e. ac3 corner_crossword [(corner_across, [''AB'', ''CD'']), (corner_down, [''AB'', ''CD''])]
              (Some [(corner_across, corner_down), (corner_across, corner_across)]) = Inl e)"
proof -
  let ?D = "[(corner_across, [''AB'', ''CD'']), (corner_down, [''AB'', ''CD''])]"
  have h1: "overlaps corner_crossword (corner_across, corner_across) = None"
    by code_simp
  have h2: "overlaps_symmetric corner_crossword"
    by (rule corner_overlaps_symmetric)
  have q: "initial_arcs corner_crossword ?D None
             = [(corner_across, corner_down), (corner_down, corner_across)]"
    by code_simp
  have h3: "ac3_reaches corner_crossword (?D, initial_arcs corner_crossword ?D None)
              (?D, [(corner_across, corner_down), (corner_down, corner_across)])"
    unfolding q by (rule ac3_reaches.start)
  have h4: "(corner_down, corner_across)
              \<in> set [(corner_across, corner_down), (corner_down, corner_across)]"
    by simp
  have h5: "(corner_across, corner_across)
              \<in> set [(corner_across, corner_down), (corner_across, corner_across)]"
    by simp
  from revise_needs_overlap_ac3_default_arcs_have_it
         [of corner_crossword corner_across corner_across ?D "[(corner_across, corner_down)]"]
       h1
  have t: "ac3 corner_crossword ?D (Some [(corner_across, corner_across), (corner_across, corner_down)])
             = Inl TypeError"
    by blast
  from revise_needs_overlap_ac3_default_arcs_have_it
         [of corner_crossword corner_across corner_across ?D
             "[(corner_across, corner_down), (corner_across, corner_across)]"]
       h1 h2 h3 h4 h5 t
  show ?thesis by blast
qed

end
